theory Spec2Isabelle
  imports Main "HOL-Library.Word" "HOL-Library.Sublist" "HOL-Library.Char_ord"
    "HOL-Library.List_Lexorder"
begin

unbundle bit_operations_syntax

section \<open>Go values shared by the data-plane components\<close>

type_synonym byte = "8 word"

text \<open>
  Go error values. The sentinels of the standard library are compared by identity
  (\<open>err == io.EOF\<close>), so each is a constructor of its own; \<open>errors.New\<close> and
  \<open>fmt.Errorf\<close> without \<open>%w\<close> give an \<open>ErrorString\<close>, \<open>fmt.Errorf\<close> with \<open>%w\<close> a
  \<open>Wrapped\<close> error that carries its own text and the error it wraps.
\<close>

datatype go_error =
    EOF
  | ErrUnexpectedEOF
  | ErrShortBuffer
  | ErrClosedPipe
  | NetErrClosed
  | ErrorString string
  | Wrapped string go_error

fun Error :: "go_error \<Rightarrow> string" where
  "Error EOF = ''EOF''"
| "Error ErrUnexpectedEOF = ''unexpected EOF''"
| "Error ErrShortBuffer = ''short buffer''"
| "Error ErrClosedPipe = ''io: read/write on closed pipe''"
| "Error NetErrClosed = ''use of closed network connection''"
| "Error (ErrorString s) = s"
| "Error (Wrapped s e) = s"

text \<open>\<open>strings.Contains\<close>: some suffix of the text starts with the pattern.\<close>

fun Contains :: "string \<Rightarrow> string \<Rightarrow> bool" where
  "Contains [] sub = (sub = [])"
| "Contains (c # cs) sub = (prefix sub (c # cs) \<or> Contains cs sub)"

text \<open>Decimal digits of a natural number, as \<open>%d\<close> prints them.\<close>

function decimal :: "nat \<Rightarrow> string" where
  "decimal n =
     (if n < 10 then [char_of (48 + n)]
      else decimal (n div 10) @ [char_of (48 + n mod 10)])"
  by pat_completeness auto
termination
  by (relation "measure id") auto

definition fmt_d :: "int \<Rightarrow> string" where
  "fmt_d n = (if n < 0 then CHR ''-'' # decimal (nat (- n)) else decimal (nat n))"

subsection \<open>A reliable byte stream\<close>

text \<open>
  The \<open>io.ReadWriteCloser\<close> under a codec: \<open>inbuf\<close> holds the bytes still to be read
  (end of file after them), \<open>outbuf\<close> the bytes the peer has been sent so far, and
  \<open>wfaults\<close> scripts the outcome of the coming \<open>Write\<close> calls: \<open>None\<close> (or an
  exhausted script) is a write that succeeds, \<open>Some k\<close> one that fails after at most
  \<open>k\<close> bytes went out.
\<close>

record stream =
  inbuf :: "byte list"
  outbuf :: "byte list"
  wfaults :: "nat option list"

definition bytes_reader :: "byte list \<Rightarrow> stream" where
  "bytes_reader bs = \<lparr>inbuf = bs, outbuf = [], wfaults = []\<rparr>"

definition bytes_writer :: stream where
  "bytes_writer = \<lparr>inbuf = [], outbuf = [], wfaults = []\<rparr>"

definition stream_Write :: "stream \<Rightarrow> byte list \<Rightarrow> (go_error + nat) \<times> stream" where
  "stream_Write s p =
     (case wfaults s of
        [] \<Rightarrow> (Inr (length p), s\<lparr>outbuf := outbuf s @ p\<rparr>)
      | None # fs \<Rightarrow> (Inr (length p), s\<lparr>outbuf := outbuf s @ p, wfaults := fs\<rparr>)
      | Some k # fs \<Rightarrow>
          (Inl (ErrorString ''write failed''),
           s\<lparr>outbuf := outbuf s @ take k p, wfaults := fs\<rparr>))"

text \<open>
  \<open>io.ReadFull\<close> for a buffer of \<open>n\<close> bytes: nothing to do for \<open>n = 0\<close>; \<open>io.EOF\<close>
  when no byte at all could be read, \<open>io.ErrUnexpectedEOF\<close> when the stream ends
  inside the buffer (the bytes read so far are consumed).
\<close>

definition ReadFull :: "stream \<Rightarrow> nat \<Rightarrow> (go_error + byte list) \<times> stream" where
  "ReadFull s n =
     (if n = 0 then (Inr [], s)
      else if inbuf s = [] then (Inl EOF, s)
      else if length (inbuf s) < n then (Inl ErrUnexpectedEOF, s\<lparr>inbuf := []\<rparr>)
      else (Inr (take n (inbuf s)), s\<lparr>inbuf := drop n (inbuf s)\<rparr>))"

subsection \<open>\<open>encoding/binary\<close>, big endian\<close>

definition PutUint16 :: "16 word \<Rightarrow> byte list" where
  "PutUint16 v = [ucast (drop_bit 8 v), ucast v]"

definition Uint16 :: "byte list \<Rightarrow> 16 word" where
  "Uint16 b = (ucast (b ! 1)) OR push_bit 8 (ucast (b ! 0))"

definition PutUint32 :: "32 word \<Rightarrow> byte list" where
  "PutUint32 v = [ucast (drop_bit 24 v), ucast (drop_bit 16 v), ucast (drop_bit 8 v), ucast v]"

definition Uint32 :: "byte list \<Rightarrow> 32 word" where
  "Uint32 b = (ucast (b ! 3)) OR push_bit 8 (ucast (b ! 2)) OR push_bit 16 (ucast (b ! 1))
                OR push_bit 24 (ucast (b ! 0))"

definition PutUint64 :: "64 word \<Rightarrow> byte list" where
  "PutUint64 v =
     [ucast (drop_bit 56 v), ucast (drop_bit 48 v), ucast (drop_bit 40 v),
      ucast (drop_bit 32 v), ucast (drop_bit 24 v), ucast (drop_bit 16 v),
      ucast (drop_bit 8 v), ucast v]"

definition Uint64 :: "byte list \<Rightarrow> 64 word" where
  "Uint64 b = (ucast (b ! 7)) OR push_bit 8 (ucast (b ! 6)) OR push_bit 16 (ucast (b ! 5))
                OR push_bit 24 (ucast (b ! 4)) OR push_bit 32 (ucast (b ! 3))
                OR push_bit 40 (ucast (b ! 2)) OR push_bit 48 (ucast (b ! 1))
                OR push_bit 56 (ucast (b ! 0))"

subsection \<open>\<open>support.ToUint16Size\<close> and \<open>support.ToUint32Size\<close>\<close>

text \<open>\<open>math.MaxInt\<close> of the 64-bit targets.\<close>

definition MaxInt :: int where
  "MaxInt = 2 ^ 63 - 1"

definition toUintSize :: "int \<Rightarrow> int \<Rightarrow> string \<Rightarrow> go_error + 'a::len word" where
  "toUintSize n limit label =
     (if n < 0 then Inl (ErrorString (''value exceeds '' @ label @ '' range: '' @ fmt_d n))
      else if limit \<le> MaxInt then
        (if n > limit then Inl (ErrorString (''value exceeds '' @ label @ '' range: '' @ fmt_d n))
         else Inr (word_of_int n))
      else
        (if n > limit then Inl (ErrorString (''value exceeds '' @ label @ '' range: '' @ fmt_d n))
         else Inr (word_of_int n)))"

definition ToUint32Size :: "int \<Rightarrow> go_error + 32 word" where
  "ToUint32Size n = toUintSize n 4294967295 ''uint32''"

definition ToUint16Size :: "int \<Rightarrow> go_error + 16 word" where
  "ToUint16Size n = toUintSize n 65535 ''uint16''"

section \<open>UDP datagrams on a reliable stream\<close>

definition udpMaxPacketSize :: int where
  "udpMaxPacketSize = 65535"

text \<open>\<open>writeUDPPacket\<close>: the error it returns (\<open>None\<close> for \<open>nil\<close>) and the stream after it.\<close>

definition writeUDPPacket :: "stream \<Rightarrow> byte list \<Rightarrow> go_error option \<times> stream" where
  "writeUDPPacket w payload =
     (case ToUint16Size (int (length payload)) of
        Inl err \<Rightarrow> (Some err, w)
      | Inr len \<Rightarrow>
          (case stream_Write w (PutUint16 len) of
             (Inl writeErr, w1) \<Rightarrow> (Some writeErr, w1)
           | (Inr _, w1) \<Rightarrow>
               (case stream_Write w1 payload of
                  (Inl writeErr, w2) \<Rightarrow> (Some writeErr, w2)
                | (Inr _, w2) \<Rightarrow> (None, w2))))"

definition readUDPPacket :: "stream \<Rightarrow> (go_error + byte list) \<times> stream" where
  "readUDPPacket r =
     (case ReadFull r 2 of
        (Inl err, r1) \<Rightarrow> (Inl err, r1)
      | (Inr hdr, r1) \<Rightarrow>
          (let n = uint (Uint16 hdr) in
           if n \<le> 0 \<or> n > udpMaxPacketSize then (Inl ErrUnexpectedEOF, r1)
           else (case ReadFull r1 (nat n) of
                   (Inl err, r2) \<Rightarrow> (Inl err, r2)
                 | (Inr buf, r2) \<Rightarrow> (Inr buf, r2))))"

section \<open>The stream encryption wrapper\<close>

text \<open>
  \<open>cipher.AEAD\<close> as the wrapper uses it: \<open>Seal(nil, nonce, p, nil)\<close> and
  \<open>Open(nil, nonce, buf, nil)\<close>. The cipher (XChaCha20-Poly1305) and the digest
  (SHA-256) are libraries outside the repository: they enter as the values of a
  \<open>crypto\<close> record, \<open>NewX\<close> for \<open>chacha20poly1305.NewX\<close> and \<open>Sum256\<close> for the hash
  of everything written to \<open>sha256.New()\<close>.
\<close>

record cipher_AEAD =
  Seal :: "byte list \<Rightarrow> byte list \<Rightarrow> byte list"
  Open :: "byte list \<Rightarrow> byte list \<Rightarrow> go_error + byte list"

record crypto =
  Sum256 :: "byte list \<Rightarrow> byte list"
  NewX :: "byte list \<Rightarrow> go_error + cipher_AEAD"

record ClientPSK =
  secret :: "byte list"

record ClientAEAD =
  base :: stream
  aead :: cipher_AEAD
  encCtr :: "64 word"

definition NewClientPSK :: "byte list \<Rightarrow> ClientPSK" where
  "NewClientPSK s = \<lparr>secret = s\<rparr>"

text \<open>An \<open>io.ReadWriteCloser\<close> value as the data plane handles it.\<close>

datatype rwc = Nil | Plain stream | Sealed ClientAEAD

definition bytes_of :: "string \<Rightarrow> byte list" where
  "bytes_of s = map of_char s"

definition Wrap :: "crypto \<Rightarrow> ClientPSK \<Rightarrow> stream \<Rightarrow> string \<Rightarrow> rwc" where
  "Wrap lib c conn tunnelID =
     (let key = Sum256 lib (secret c @ bytes_of tunnelID) in
      case NewX lib key of
        Inl err \<Rightarrow> Nil
      | Inr a \<Rightarrow> Sealed \<lparr>base = conn, aead = a, encCtr = 0\<rparr>)"

text \<open>
  \<open>Read\<close> for a caller's buffer of \<open>plen\<close> bytes: the bytes now in \<open>p[:n]\<close> and the
  error.
\<close>

definition ClientAEAD_Read ::
  "ClientAEAD \<Rightarrow> nat \<Rightarrow> (byte list \<times> go_error option) \<times> ClientAEAD" where
  "ClientAEAD_Read c plen =
     (case ReadFull (base c) (4 + 24) of
        (Inl err, b1) \<Rightarrow> (([], Some err), c\<lparr>base := b1\<rparr>)
      | (Inr hdr, b1) \<Rightarrow>
          (let l = Uint32 (take 4 hdr); nonce = drop 4 hdr in
           case ReadFull b1 (unat l) of
             (Inl err, b2) \<Rightarrow> (([], Some err), c\<lparr>base := b2\<rparr>)
           | (Inr buf, b2) \<Rightarrow>
               (case Open (aead c) nonce buf of
                  Inl err \<Rightarrow> (([], Some err), c\<lparr>base := b2\<rparr>)
                | Inr pt \<Rightarrow>
                    (let n = min plen (length pt) in
                     if n < length pt then ((take n pt, Some ErrShortBuffer), c\<lparr>base := b2\<rparr>)
                     else ((take n pt, None), c\<lparr>base := b2\<rparr>)))))"

text \<open>
  What a \<open>Write\<close> does, in the order it does it: the store to \<open>encCtr\<close>, the call of
  \<open>Seal\<close> with its nonce, and the writes to the underlying stream.
\<close>

datatype event = CtrStore "64 word" | SealCall "byte list" | BaseWrite "byte list"

definition ClientAEAD_Write ::
  "ClientAEAD \<Rightarrow> byte list \<Rightarrow> (nat \<times> go_error option) \<times> ClientAEAD \<times> event list" where
  "ClientAEAD_Write c p =
     (let nonce = replicate 16 0 @ PutUint64 (encCtr c);
          c1 = c\<lparr>encCtr := encCtr c + 1\<rparr>;
          ev = [CtrStore (encCtr c1), SealCall nonce];
          ct = Seal (aead c1) nonce p
      in case ToUint32Size (int (length ct)) of
           Inl err \<Rightarrow> ((0, Some err), c1, ev)
         | Inr l \<Rightarrow>
             (let hdr = PutUint32 l @ nonce in
              case stream_Write (base c1) hdr of
                (Inl err, b1) \<Rightarrow> ((0, Some err), c1\<lparr>base := b1\<rparr>, ev @ [BaseWrite hdr])
              | (Inr _, b1) \<Rightarrow>
                  (case stream_Write b1 ct of
                     (Inl err, b2) \<Rightarrow>
                       ((0, Some err), c1\<lparr>base := b2\<rparr>, ev @ [BaseWrite hdr, BaseWrite ct])
                   | (Inr _, b2) \<Rightarrow>
                       ((length p, None), c1\<lparr>base := b2\<rparr>,
                        ev @ [BaseWrite hdr, BaseWrite ct]))))"

text \<open>A sequence of \<open>Write\<close> calls, and of \<open>Read\<close> calls with the given buffer sizes.\<close>

fun Writes ::
  "ClientAEAD \<Rightarrow> byte list list \<Rightarrow> (nat \<times> go_error option) list \<times> ClientAEAD" where
  "Writes c [] = ([], c)"
| "Writes c (p # ps) =
     (case ClientAEAD_Write c p of
        (r, c1, ev) \<Rightarrow> (case Writes c1 ps of (rs, c2) \<Rightarrow> (r # rs, c2)))"

fun Reads ::
  "ClientAEAD \<Rightarrow> nat list \<Rightarrow> (byte list \<times> go_error option) list \<times> ClientAEAD" where
  "Reads c [] = ([], c)"
| "Reads c (n # ns) =
     (case ClientAEAD_Read c n of
        (r, c1) \<Rightarrow> (case Reads c1 ns of (rs, c2) \<Rightarrow> (r # rs, c2)))"

text \<open>The nonces that went to \<open>Seal\<close>, and those of a sequence of \<open>Write\<close> calls.\<close>

fun sealNonces :: "event list \<Rightarrow> byte list list" where
  "sealNonces [] = []"
| "sealNonces (SealCall nonce # evs) = nonce # sealNonces evs"
| "sealNonces (e # evs) = sealNonces evs"

fun nonces :: "ClientAEAD \<Rightarrow> byte list list \<Rightarrow> byte list list" where
  "nonces c [] = []"
| "nonces c (p # ps) =
     (case ClientAEAD_Write c p of (r, c1, ev) \<Rightarrow> sealNonces ev @ nonces c1 ps)"

subsection \<open>\<open>WrapClientStream\<close>\<close>

record EncryptionSettings =
  Enabled :: bool
  PSK :: string

definition WrapClientStream :: "crypto \<Rightarrow> stream \<Rightarrow> string \<Rightarrow> EncryptionSettings \<Rightarrow> rwc" where
  "WrapClientStream lib s tunnelID enc =
     (if \<not> Enabled enc then Plain s
      else let mgr = NewClientPSK (bytes_of (PSK enc)) in Wrap lib mgr s tunnelID)"

section \<open>The session manager\<close>

text \<open>\<open>time.Duration\<close> is a signed 64-bit count of nanoseconds.\<close>

type_synonym Duration = "64 word"

definition nextBackoff :: "Duration \<Rightarrow> Duration \<Rightarrow> Duration" where
  "nextBackoff current limit =
     (let next = current * 2 in
      if limit <s next then limit else next)"

text \<open>
  The network as the manager sees it. Connections and sessions are handles.
  \<open>dial_plan\<close> gives the outcome of the \<open>i\<close>-th call of \<open>Dial\<close> (and of \<open>smux.Client\<close>
  on the connection it returns); \<open>dials\<close> logs the calls made, \<open>slept\<close> the arguments
  of \<open>time.Sleep\<close>, \<open>closed_conns\<close> and \<open>closed_sess\<close> what has been closed.
\<close>

datatype smux_outcome = SmuxError go_error | SmuxSession nat

datatype dial_outcome = DialError go_error | DialConn nat smux_outcome

record net =
  dial_plan :: "nat \<Rightarrow> dial_outcome"
  dials :: "(string \<times> string) list"
  slept :: "Duration list"
  closed_conns :: "nat list"
  closed_sess :: "nat list"

record Manager =
  serverURL :: string
  tunnelID :: string
  conn :: "nat option"
  sess :: "nat option"
  stopped :: bool
  boInit :: Duration
  boMax :: Duration

definition NewManager :: "string \<Rightarrow> string \<Rightarrow> Duration \<Rightarrow> Duration \<Rightarrow> Manager" where
  "NewManager url tid bi bm =
     \<lparr>serverURL = url, tunnelID = tid, conn = None, sess = None, stopped = False,
      boInit = bi, boMax = bm\<rparr>"

definition IsClosed :: "net \<Rightarrow> nat \<Rightarrow> bool" where
  "IsClosed w s = (s \<in> set (closed_sess w))"

text \<open>
  \<open>sessionDialParams\<close>: the URL and the \<open>Origin\<close> header, the empty URL when
  \<open>buildWebSocketURL\<close> (a parameter here: it rests on \<open>net/url\<close>) fails.
\<close>

definition sessionDialParams ::
  "(string \<Rightarrow> string \<Rightarrow> go_error + string \<times> string) \<Rightarrow> Manager \<Rightarrow> string \<times> string" where
  "sessionDialParams buildWebSocketURL m =
     (case buildWebSocketURL (serverURL m) (tunnelID m) of
        Inl err \<Rightarrow> ([], [])
      | Inr (wsURL, origin) \<Rightarrow> (wsURL, origin))"

text \<open>
  \<open>initializeSession\<close> on a dialled connection: a failed \<open>smux.Client\<close> closes the
  connection, a session is stored in the manager with its connection.
\<close>

definition initializeSession ::
  "Manager \<Rightarrow> net \<Rightarrow> nat \<Rightarrow> smux_outcome \<Rightarrow> (go_error + nat) \<times> Manager \<times> net" where
  "initializeSession m w c out =
     (case out of
        SmuxError err \<Rightarrow>
          (Inl (Wrapped (''smux client: '' @ Error err) err), m,
           w\<lparr>closed_conns := closed_conns w @ [c]\<rparr>)
      | SmuxSession s \<Rightarrow> (Inr s, m\<lparr>conn := Some c, sess := Some s\<rparr>, w))"

text \<open>
  The dial loop of \<open>EnsureSession\<close>. It runs until a dial and its initialisation
  succeed, so it need not return: \<open>None\<close> is the loop that never ends.
\<close>

partial_function (option) dialLoop ::
  "string \<times> string \<Rightarrow> Manager \<Rightarrow> net \<Rightarrow> Duration \<Rightarrow> ((go_error + nat) \<times> Manager \<times> net) option"
where
  "dialLoop params m w backoff =
     (if stopped m then Some (Inl (ErrorString ''stopped''), m, w)
      else
        (let out = dial_plan w (length (dials w));
             w1 = w\<lparr>dials := dials w @ [params]\<rparr>
         in case out of
              DialError err \<Rightarrow>
                dialLoop params m (w1\<lparr>slept := slept w1 @ [backoff]\<rparr>)
                  (nextBackoff backoff (boMax m))
            | DialConn c init \<Rightarrow>
                (case initializeSession m w1 c init of
                   (Inr s, m1, w2) \<Rightarrow> Some (Inr s, m1, w2)
                 | (Inl initErr, m1, w2) \<Rightarrow>
                     dialLoop params m1 (w2\<lparr>slept := slept w2 @ [backoff]\<rparr>)
                       (nextBackoff backoff (boMax m1)))))"

definition EnsureSession ::
  "(string \<Rightarrow> string \<Rightarrow> go_error + string \<times> string) \<Rightarrow> Manager \<Rightarrow> net
     \<Rightarrow> ((go_error + nat) \<times> Manager \<times> net) option" where
  "EnsureSession buildWebSocketURL m w =
     (if stopped m then Some (Inl (ErrorString ''stopped''), m, w)
      else if (case sess m of None \<Rightarrow> False | Some s \<Rightarrow> \<not> IsClosed w s)
      then Some (Inr (the (sess m)), m, w)
      else
        (let params = sessionDialParams buildWebSocketURL m in
         if fst params = [] then Some (Inl (ErrorString ''invalid websocket url''), m, w)
         else dialLoop params m w (boInit m)))"

definition Close :: "Manager \<Rightarrow> net \<Rightarrow> Manager \<times> net" where
  "Close m w =
     (let w1 = (case sess m of None \<Rightarrow> w | Some s \<Rightarrow> w\<lparr>closed_sess := closed_sess w @ [s]\<rparr>);
          w2 = (case conn m of None \<Rightarrow> w1 | Some c \<Rightarrow> w1\<lparr>closed_conns := closed_conns w1 @ [c]\<rparr>)
      in (m\<lparr>stopped := True, sess := None, conn := None\<rparr>, w2))"

text \<open>
  A sequence of calls on one manager, with the results of its \<open>EnsureSession\<close> calls;
  \<open>None\<close> when one of them does not return.
\<close>

datatype mgr_call = CallEnsure | CallClose

fun calls ::
  "(string \<Rightarrow> string \<Rightarrow> go_error + string \<times> string) \<Rightarrow> Manager \<Rightarrow> net \<Rightarrow> mgr_call list
     \<Rightarrow> ((go_error + nat) list \<times> Manager \<times> net) option" where
  "calls bw m w [] = Some ([], m, w)"
| "calls bw m w (CallEnsure # cs) =
     (case EnsureSession bw m w of
        None \<Rightarrow> None
      | Some (r, m1, w1) \<Rightarrow>
          (case calls bw m1 w1 cs of
             None \<Rightarrow> None
           | Some (rs, m2, w2) \<Rightarrow> Some (r # rs, m2, w2)))"
| "calls bw m w (CallClose # cs) = (case Close m w of (m1, w1) \<Rightarrow> calls bw m1 w1 cs)"

text \<open>The backoff values of the first \<open>k\<close> sleeps of one \<open>EnsureSession\<close> call.\<close>

fun backoffs :: "Duration \<Rightarrow> Duration \<Rightarrow> nat \<Rightarrow> Duration list" where
  "backoffs b limit 0 = []"
| "backoffs b limit (Suc k) = b # backoffs (nextBackoff b limit) limit k"

text \<open>An attempt of the dial loop fails when the dial or the session set-up fails.\<close>

definition attemptFails :: "dial_outcome \<Rightarrow> bool" where
  "attemptFails out =
     (case out of
        DialError err \<Rightarrow> True
      | DialConn c (SmuxError err) \<Rightarrow> True
      | DialConn c (SmuxSession s) \<Rightarrow> False)"

text \<open>
  A network for evaluation: the first \<open>n\<close> dials are refused, the next gives session
  7 on connection 1; and a stand-in for \<open>buildWebSocketURL\<close>.
\<close>

definition refusing :: "nat \<Rightarrow> net" where
  "refusing n =
     \<lparr>dial_plan = (\<lambda>i. if i < n then DialError (ErrorString ''connection refused'')
                        else DialConn 1 (SmuxSession 7)),
      dials = [], slept = [], closed_conns = [], closed_sess = []\<rparr>"

definition wsURLs :: "string \<Rightarrow> string \<Rightarrow> go_error + string \<times> string" where
  "wsURLs url tid = Inr (''ws://relay/ws?mode=data&tunnel_id='' @ tid, url)"


section \<open>The stream bridge\<close>

text \<open>
  How a run of \<open>io.CopyBuffer\<close> ends, and the error it then returns: the end of the
  source is no error, any other read error and any write error is returned as it is.
\<close>

datatype copy_end = ReadEnded go_error | WriteFailed go_error | ShortWrite

definition CopyBuffer_err :: "copy_end \<Rightarrow> go_error option" where
  "CopyBuffer_err e =
     (case e of
        ReadEnded er \<Rightarrow> (if er \<noteq> EOF then Some er else None)
      | WriteFailed ew \<Rightarrow> Some ew
      | ShortWrite \<Rightarrow> Some (ErrorString ''short write''))"

definition isClosedPipe :: "go_error \<Rightarrow> bool" where
  "isClosedPipe err = Contains (Error err) ''closed pipe''"

text \<open>
  The lines \<open>startBufferedCopy\<close> logs for the error its copy returned (\<open>None\<close> is
  \<open>nil\<close>).
\<close>

definition copyLog :: "string \<Rightarrow> go_error option \<Rightarrow> string list" where
  "copyLog label r =
     (case r of
        None \<Rightarrow> []
      | Some err \<Rightarrow>
          if err \<noteq> EOF \<and> \<not> isClosedPipe err
          then [''client bridge: copy '' @ label @ '' error: '' @ Error err]
          else [])"

definition startBufferedCopy :: "string \<Rightarrow> copy_end \<Rightarrow> string list" where
  "startBufferedCopy label e = copyLog label (CopyBuffer_err e)"

subsection \<open>\<open>support.IsBenignCopyError\<close>, the classifier of the incoming-stream path\<close>

fun errors_Is :: "go_error \<Rightarrow> go_error \<Rightarrow> bool" where
  "errors_Is (Wrapped s e) target = (Wrapped s e = target \<or> errors_Is e target)"
| "errors_Is e target = (e = target)"

definition IsBenignCopyError :: "go_error option \<Rightarrow> bool" where
  "IsBenignCopyError r =
     (case r of
        None \<Rightarrow> True
      | Some err \<Rightarrow>
          if errors_Is err EOF \<or> errors_Is err ErrUnexpectedEOF \<or> errors_Is err NetErrClosed
          then True
          else
            (let msg = Error err in
             if Contains msg ''use of closed network connection'' \<or>
                Contains msg ''broken pipe'' \<or>
                Contains msg ''connection reset by peer'' \<or>
                Contains msg ''stream closed'' \<or>
                Contains msg ''EOF''
             then True else False))"


section \<open>The WebSocket stream adapter\<close>

definition MaxWebSocketMessageSize :: int where
  "MaxWebSocketMessageSize = 1024 * 1024"

definition MaxWebSocketFrameSize :: int where
  "MaxWebSocketFrameSize = 64 * 1024"

text \<open>
  The \<open>*websocket.Conn\<close> under the adapter. \<open>incoming\<close> are the messages still to
  arrive, each with its type, its payload and the error its reader ends with
  (\<open>io.EOF\<close> for a complete message); \<open>next_err\<close> is what \<open>NextReader\<close> returns after
  them. \<open>writer_err\<close>, \<open>write_err\<close> and \<open>close_err\<close> are the errors of \<open>NextWriter\<close>,
  of the writer's \<open>Write\<close> and of its \<open>Close\<close>. \<open>sent\<close> are the binary messages sent,
  and \<open>ops\<close> logs every operation performed on the connection.
\<close>

datatype msg_type = TextMessage | BinaryMessage

datatype ws_op = NextReader | Discard | ReaderRead | NextWriter | WriterWrite | WriterClose

record websocket_Conn =
  incoming :: "(msg_type \<times> byte list \<times> go_error) list"
  next_err :: go_error
  writer_err :: "go_error option"
  write_err :: "go_error option"
  close_err :: "go_error option"
  sent :: "byte list list"
  ops :: "ws_op list"

record WSConn =
  sock :: "websocket_Conn option"
  currReader :: "(byte list \<times> go_error) option"

definition isConnClosed :: "go_error \<Rightarrow> bool" where
  "isConnClosed err =
     (let msg = Error err in
      Contains msg ''websocket: close'' \<or>
      Contains msg ''use of closed network connection'' \<or>
      Contains msg ''connection closed'' \<or>
      Contains msg ''connection reset by peer'' \<or>
      Contains msg ''broken pipe'')"

definition did :: "ws_op \<Rightarrow> websocket_Conn \<Rightarrow> websocket_Conn" where
  "did op c = c\<lparr>ops := ops c @ [op]\<rparr>"

text \<open>The loop of \<open>Read\<close>, entered once the buffer size has been accepted.\<close>

function readLoop :: "WSConn \<Rightarrow> nat \<Rightarrow> (byte list \<times> go_error option) \<times> WSConn" where
  "readLoop w plen =
     (case currReader w of
        None \<Rightarrow>
          (case sock w of
             None \<Rightarrow> (([], Some EOF), w)
           | Some c \<Rightarrow>
               (case incoming c of
                  [] \<Rightarrow>
                    (([], Some (if isConnClosed (next_err c) then EOF else next_err c)),
                     w\<lparr>sock := Some (did NextReader c)\<rparr>)
                | msg # rest \<Rightarrow>
                    (let c1 = did NextReader (c\<lparr>incoming := rest\<rparr>) in
                     if fst msg \<noteq> BinaryMessage
                     then readLoop (w\<lparr>sock := Some (did Discard c1)\<rparr>) plen
                     else readLoop (w\<lparr>sock := Some c1, currReader := Some (snd msg)\<rparr>) plen)))
      | Some rd \<Rightarrow>
          (let w1 = w\<lparr>sock := map_option (did ReaderRead) (sock w)\<rparr> in
           if fst rd = [] then
             (if snd rd = EOF then readLoop (w1\<lparr>currReader := None\<rparr>) plen
              else (([], Some (if isConnClosed (snd rd) then EOF else snd rd)), w1))
           else
             (let n = min plen (length (fst rd)) in
              ((take n (fst rd), None), w1\<lparr>currReader := Some (drop n (fst rd), snd rd)\<rparr>))))"
  by pat_completeness auto
termination
  by (relation "measure (\<lambda>(w, plen).
        2 * (case sock w of None \<Rightarrow> 0 | Some c \<Rightarrow> length (incoming c)) +
        (case currReader w of None \<Rightarrow> 0 | Some rd \<Rightarrow> 1))")
     (auto simp: did_def split: option.splits)

declare readLoop.simps [simp del]

definition WSConn_Read :: "WSConn \<Rightarrow> nat \<Rightarrow> (byte list \<times> go_error option) \<times> WSConn" where
  "WSConn_Read w plen =
     (if int plen > MaxWebSocketFrameSize
      then (([], Some (ErrorString ''requested buffer size exceeds maximum allowed'')), w)
      else readLoop w plen)"

text \<open>
  \<open>Write\<close>: the count and the error it returns; \<open>None\<close> is the nil-pointer panic of a
  write on an adapter without a connection.
\<close>

definition WSConn_Write :: "WSConn \<Rightarrow> byte list \<Rightarrow> ((nat \<times> go_error option) \<times> WSConn) option" where
  "WSConn_Write w p =
     (if int (length p) > MaxWebSocketMessageSize
      then Some ((0, Some (ErrorString ''message size exceeds maximum allowed'')), w)
      else
        (case sock w of
           None \<Rightarrow> None
         | Some c \<Rightarrow>
             (let c1 = did NextWriter c in
              case writer_err c1 of
                Some err \<Rightarrow> Some ((0, Some err), w\<lparr>sock := Some c1\<rparr>)
              | None \<Rightarrow>
                  (let c2 = did WriterWrite c1;
                       n = (if write_err c2 = None then length p else 0);
                       c3 = did WriterClose c2;
                       c4 = (if write_err c3 = None \<and> close_err c3 = None
                             then c3\<lparr>sent := sent c3 @ [p]\<rparr> else c3)
                   in case write_err c4 of
                        Some werr \<Rightarrow> Some ((n, Some werr), w\<lparr>sock := Some c4\<rparr>)
                      | None \<Rightarrow> Some ((n, close_err c4), w\<lparr>sock := Some c4\<rparr>)))))"


section \<open>The stream preface\<close>

subsection \<open>\<open>strings.TrimSpace\<close>\<close>

text \<open>
  The white space of \<open>unicode.IsSpace\<close> in UTF-8: the six ASCII characters, U+0085,
  U+00A0, U+1680, U+2000 to U+200A, U+2028, U+2029, U+202F, U+205F and U+3000.
\<close>

definition spaceRunes :: "string list" where
  "spaceRunes =
     [[CHR 0x09], [CHR 0x0A], [CHR 0x0B], [CHR 0x0C], [CHR 0x0D], [CHR 0x20],
      [CHR 0xC2, CHR 0x85], [CHR 0xC2, CHR 0xA0], [CHR 0xE1, CHR 0x9A, CHR 0x80],
      [CHR 0xE2, CHR 0x80, CHR 0x80], [CHR 0xE2, CHR 0x80, CHR 0x81],
      [CHR 0xE2, CHR 0x80, CHR 0x82], [CHR 0xE2, CHR 0x80, CHR 0x83],
      [CHR 0xE2, CHR 0x80, CHR 0x84], [CHR 0xE2, CHR 0x80, CHR 0x85],
      [CHR 0xE2, CHR 0x80, CHR 0x86], [CHR 0xE2, CHR 0x80, CHR 0x87],
      [CHR 0xE2, CHR 0x80, CHR 0x88], [CHR 0xE2, CHR 0x80, CHR 0x89],
      [CHR 0xE2, CHR 0x80, CHR 0x8A], [CHR 0xE2, CHR 0x80, CHR 0xA8],
      [CHR 0xE2, CHR 0x80, CHR 0xA9], [CHR 0xE2, CHR 0x80, CHR 0xAF],
      [CHR 0xE2, CHR 0x81, CHR 0x9F], [CHR 0xE3, CHR 0x80, CHR 0x80]]"

text \<open>The length of the white-space rune the text starts with, 0 when it starts with none.\<close>

definition spaceWidth :: "string list \<Rightarrow> string \<Rightarrow> nat" where
  "spaceWidth runes s = (case find (\<lambda>r. prefix r s) runes of None \<Rightarrow> 0 | Some r \<Rightarrow> length r)"

lemma spaceWidth_le: "spaceWidth runes s \<le> length s"
  by (auto simp: spaceWidth_def find_Some_iff prefix_length_le split: option.splits)

function trimRunes :: "string list \<Rightarrow> string \<Rightarrow> string" where
  "trimRunes runes s =
     (if spaceWidth runes s = 0 then s else trimRunes runes (drop (spaceWidth runes s) s))"
  by pat_completeness auto
termination
proof (relation "measure (\<lambda>(runes, s). length s)")
  fix runes :: "string list" and s :: string
  assume "spaceWidth runes s \<noteq> 0"
  moreover have "spaceWidth runes s \<le> length s"
    by (rule spaceWidth_le)
  ultimately have "length s - spaceWidth runes s < length s"
    by arith
  then show "((runes, drop (spaceWidth runes s) s), runes, s) \<in> measure (\<lambda>(runes, s). length s)"
    by simp
qed simp

definition TrimSpace :: "string \<Rightarrow> string" where
  "TrimSpace s = rev (trimRunes (map rev spaceRunes) (rev (trimRunes spaceRunes s)))"

text \<open>The ASCII white space other than the line feed.\<close>

definition blank :: "char \<Rightarrow> bool" where
  "blank c = (c = CHR 0x09 \<or> c = CHR 0x0B \<or> c = CHR 0x0C \<or> c = CHR 0x0D \<or> c = CHR 0x20)"

subsection \<open>Encoding and decoding\<close>

text \<open>
  A Go \<open>map[string]string\<close> is a list of pairs with \<open>map_of\<close> for its lookup; an
  absent key reads as the empty string.
\<close>

type_synonym fields = "(string \<times> string) list"

definition index :: "fields \<Rightarrow> string \<Rightarrow> string" where
  "index m k = (case map_of m k of None \<Rightarrow> [] | Some v \<Rightarrow> v)"

text \<open>
  \<open>encodePreface\<close>, with \<open>json.Marshal\<close> as its first argument (\<open>encoding/json\<close> is
  outside the repository).
\<close>

definition encodePreface :: "(fields \<Rightarrow> go_error + string) \<Rightarrow> fields \<Rightarrow> go_error + string" where
  "encodePreface Marshal fs =
     (case Marshal fs of
        Inl err \<Rightarrow> Inl (Wrapped (''marshal preface: '' @ Error err) err)
      | Inr b \<Rightarrow> Inr (b @ [CHR 0x0A]))"

text \<open>
  A \<open>bufio.Reader\<close>: the bytes its source still delivers and the error the source ends
  with (\<open>io.EOF\<close> at the end of the input). \<open>ReadString\<close> returns the text up to and
  with the first delimiter, or all that is left together with the final error.
\<close>

record bufio_Reader =
  pending :: string
  final :: go_error

definition ReadString :: "bufio_Reader \<Rightarrow> char \<Rightarrow> (string \<times> go_error option) \<times> bufio_Reader" where
  "ReadString rd delim =
     (if delim \<in> set (pending rd)
      then ((takeWhile (\<lambda>c. c \<noteq> delim) (pending rd) @ [delim], None),
            rd\<lparr>pending := tl (dropWhile (\<lambda>c. c \<noteq> delim) (pending rd))\<rparr>)
      else ((pending rd, Some (final rd)), rd\<lparr>pending := []\<rparr>))"

lemma ReadString_shorter:
  "ReadString rd delim = ((line, None), rd1) \<Longrightarrow> length (pending rd1) < length (pending rd)"
proof -
  assume a: "ReadString rd delim = ((line, None), rd1)"
  then have m: "delim \<in> set (pending rd)"
    by (auto simp: ReadString_def split: if_splits)
  then have ne: "dropWhile (\<lambda>c. c \<noteq> delim) (pending rd) \<noteq> []"
    by simp
  have "length (dropWhile (\<lambda>c. c \<noteq> delim) (pending rd)) \<le> length (pending rd)"
    by (rule length_dropWhile_le)
  with ne have "length (tl (dropWhile (\<lambda>c. c \<noteq> delim) (pending rd))) < length (pending rd)"
    by (cases "dropWhile (\<lambda>c. c \<noteq> delim) (pending rd)") auto
  with a m show ?thesis
    by (auto simp: ReadString_def)
qed

text \<open>
  \<open>readStreamDestination\<close>, with \<open>json.Unmarshal\<close> into a \<open>map[string]string\<close> as its
  first argument: the destination and the error.
\<close>

function readStreamDestination ::
  "(string \<Rightarrow> go_error + fields) \<Rightarrow> bufio_Reader \<Rightarrow> (string \<times> go_error option) \<times> bufio_Reader"
where
  "readStreamDestination Unmarshal rd =
     (case ReadString rd (CHR 0x0A) of
        ((line, Some err), rd1) \<Rightarrow> (([], Some err), rd1)
      | ((line, None), rd1) \<Rightarrow>
          (let line1 = TrimSpace line in
           if line1 = [] then readStreamDestination Unmarshal rd1
           else
             (case Unmarshal line1 of
                Inl err \<Rightarrow> (([], Some err), rd1)
              | Inr pre \<Rightarrow> ((index pre ''dst'', None), rd1))))"
  by pat_completeness auto
termination
  by (relation "measure (\<lambda>(u, rd). length (pending rd))")
     (auto dest: ReadString_shorter [OF sym])

declare readStreamDestination.simps [simp del]

definition strings_Reader :: "string \<Rightarrow> bufio_Reader" where
  "strings_Reader s = \<lparr>pending = s, final = EOF\<rparr>"

subsection \<open>A JSON codec for flat objects of plain strings\<close>








subsection \<open>\<open>encoding/json\<close> for a \<open>map[string]string\<close>\<close>

text \<open>
  \<open>json.Marshal\<close> and \<open>json.Unmarshal\<close> belong to the Go standard library, outside the
  repository. They are modelled here after the library (Go 1.25, as \<open>go.mod\<close> asks for)
  as far as a \<open>map[string]string\<close> goes, so that \<open>encodePreface\<close> and
  \<open>readStreamDestination\<close> can be run on the bytes the program exchanges. Runes and
  bytes are natural numbers; the shifts and masks of the library are written with
  \<open>div\<close>, \<open>mod\<close> and \<open>*\<close>.
\<close>

paragraph \<open>\<open>unicode/utf8\<close>\<close>

text \<open>
  \<open>first\<close> is the table of the same name: for a leading byte, the length of the encoding
  and the range accepted for the second byte; \<open>None\<close> for the bytes \<open>0x80\<close> to \<open>0xC1\<close> and
  \<open>0xF5\<close> to \<open>0xFF\<close>, which start no encoding. \<open>DecodeRune\<close> returns the rune and the
  number of bytes it takes, \<open>(RuneError, 1)\<close> for an invalid encoding; \<open>EncodeRune\<close>
  writes U+FFFD for a surrogate and for a value above U+10FFFF.
\<close>

definition RuneError :: nat where
  "RuneError = 0xFFFD"

definition first :: "nat \<Rightarrow> (nat \<times> nat \<times> nat) option" where
  "first b =
     (if 0xC2 \<le> b \<and> b \<le> 0xDF then Some (2, 0x80, 0xBF)
      else if b = 0xE0 then Some (3, 0xA0, 0xBF)
      else if b = 0xED then Some (3, 0x80, 0x9F)
      else if 0xE1 \<le> b \<and> b \<le> 0xEF then Some (3, 0x80, 0xBF)
      else if b = 0xF0 then Some (4, 0x90, 0xBF)
      else if 0xF1 \<le> b \<and> b \<le> 0xF3 then Some (4, 0x80, 0xBF)
      else if b = 0xF4 then Some (4, 0x80, 0x8F)
      else None)"

definition DecodeRune :: "string \<Rightarrow> nat \<times> nat" where
  "DecodeRune p =
     (case p of
        [] \<Rightarrow> (RuneError, 0)
      | c0 # p1 \<Rightarrow>
          (let b0 = of_char c0 in
           if b0 < 0x80 then (b0, 1)
           else
             (case first b0 of
                None \<Rightarrow> (RuneError, 1)
              | Some (n, lo, hi) \<Rightarrow>
                  if length p < n then (RuneError, 1)
                  else
                    (let b1 = of_char (p ! 1) in
                     if b1 < lo \<or> hi < b1 then (RuneError, 1)
                     else if n \<le> 2 then (b0 mod 32 * 64 + b1 mod 64, 2)
                     else
                       (let b2 = of_char (p ! 2) in
                        if b2 < 0x80 \<or> 0xBF < b2 then (RuneError, 1)
                        else if n \<le> 3
                        then (b0 mod 16 * 4096 + b1 mod 64 * 64 + b2 mod 64, 3)
                        else
                          (let b3 = of_char (p ! 3) in
                           if b3 < 0x80 \<or> 0xBF < b3 then (RuneError, 1)
                           else (b0 mod 8 * 262144 + b1 mod 64 * 4096 + b2 mod 64 * 64
                                 + b3 mod 64, 4)))))))"

definition EncodeRune :: "nat \<Rightarrow> string" where
  "EncodeRune r =
     (if r \<le> 0x7F then [char_of r]
      else if r \<le> 0x7FF then [char_of (0xC0 + r div 64), char_of (0x80 + r mod 64)]
      else if 0x10FFFF < r \<or> (0xD800 \<le> r \<and> r \<le> 0xDFFF) then [CHR 0xEF, CHR 0xBF, CHR 0xBD]
      else if r \<le> 0xFFFF
      then [char_of (0xE0 + r div 4096), char_of (0x80 + r div 64 mod 64),
            char_of (0x80 + r mod 64)]
      else [char_of (0xF0 + r div 262144), char_of (0x80 + r div 4096 mod 64),
            char_of (0x80 + r div 64 mod 64), char_of (0x80 + r mod 64)])"


lemma DecodeRune_size:
  "p \<noteq> [] \<Longrightarrow> 1 \<le> snd (DecodeRune p) \<and> snd (DecodeRune p) \<le> length p"
  by (cases p) (auto simp: DecodeRune_def Let_def first_def Suc_le_eq split: option.splits if_splits)

lemma DecodeRune_pos: "(r, n) = DecodeRune (c # cs) \<Longrightarrow> 0 < n"
  using DecodeRune_size [of "c # cs"] by (cases "DecodeRune (c # cs)") auto

text \<open>\<open>utf8.ValidString\<close>.\<close>

function ValidString :: "string \<Rightarrow> bool" where
  "ValidString s =
     (if s = [] then True
      else if DecodeRune s = (RuneError, 1) then False
      else ValidString (drop (snd (DecodeRune s)) s))"
  by pat_completeness auto
termination
proof (relation "measure length")
  fix s :: string
  assume "s \<noteq> []"
  then have "1 \<le> snd (DecodeRune s)"
    using DecodeRune_size by blast
  with \<open>s \<noteq> []\<close> show "(drop (snd (DecodeRune s)) s, s) \<in> measure length"
    by (cases s) auto
qed simp

declare ValidString.simps [simp del]

paragraph \<open>\<open>json.Marshal\<close>\<close>

text \<open>
  \<open>appendString\<close> with HTML escaping, which \<open>Marshal\<close> turns on, without the two quotes:
  the ASCII characters of \<open>htmlSafeSet\<close> are copied; the quote and the backslash get a
  backslash; backspace, form feed, line feed, carriage return and tab get their
  two-character escape; the other control characters and \<open><\<close>, \<open>>\<close>, \<open>&\<close> are written
  as the Unicode escape of six characters with the digits \<open>00XX\<close>; a byte that starts no
  valid UTF-8 encoding is written as the escape of U+FFFD, with the digits \<open>fffd\<close>;
  U+2028 and U+2029 are written as their escapes; every other valid encoding is copied. The
  encoder of a map writes the members in the order of their keys, compared byte by
  byte, with no white space. The nil map, which \<open>Marshal\<close> writes as \<open>null\<close>, is not a
  value of \<open>fields\<close>.
\<close>

definition hex :: string where
  "hex = ''0123456789abcdef''"

definition htmlSafeSet :: "nat \<Rightarrow> bool" where
  "htmlSafeSet b = (0x20 \<le> b \<and> b < 0x80 \<and> b \<noteq> 0x22 \<and> b \<noteq> 0x26 \<and> b \<noteq> 0x3C \<and> b \<noteq> 0x3E
                    \<and> b \<noteq> 0x5C)"

definition escapeByte :: "char \<Rightarrow> string" where
  "escapeByte c =
     (if c = CHR 0x5C \<or> c = CHR 0x22 then [CHR 0x5C, c]
      else if c = CHR 0x08 then [CHR 0x5C, CHR ''b'']
      else if c = CHR 0x0C then [CHR 0x5C, CHR ''f'']
      else if c = CHR 0x0A then [CHR 0x5C, CHR ''n'']
      else if c = CHR 0x0D then [CHR 0x5C, CHR ''r'']
      else if c = CHR 0x09 then [CHR 0x5C, CHR ''t'']
      else [CHR 0x5C, CHR ''u'', CHR ''0'', CHR ''0'',
            hex ! (of_char c div 16), hex ! (of_char c mod 16)])"

function appendString :: "string \<Rightarrow> string" where
  "appendString src =
     (case src of
        [] \<Rightarrow> []
      | c # cs \<Rightarrow>
          if (of_char c :: nat) < 0x80
          then (if htmlSafeSet (of_char c) then c # appendString cs
                else escapeByte c @ appendString cs)
          else
            (case DecodeRune (take 4 src) of
               (r, sz) \<Rightarrow>
                 if r = RuneError \<and> sz = 1
                 then [CHR 0x5C, CHR ''u'', CHR ''f'', CHR ''f'', CHR ''f'', CHR ''d'']
                      @ appendString (drop sz src)
                 else if r = 0x2028 \<or> r = 0x2029
                 then [CHR 0x5C, CHR ''u'', CHR ''2'', CHR ''0'', CHR ''2'', hex ! (r mod 16)]
                      @ appendString (drop sz src)
                 else take sz src @ appendString (drop sz src)))"
  by pat_completeness auto
termination
  by (relation "measure length") (auto dest: DecodeRune_pos)

declare appendString.simps [simp del]

definition quoteString :: "string \<Rightarrow> string" where
  "quoteString s = CHR 0x22 # appendString s @ [CHR 0x22]"

fun encodeMembers :: "fields \<Rightarrow> string" where
  "encodeMembers [] = []"
| "encodeMembers [(k, v)] = quoteString k @ '':'' @ quoteString v"
| "encodeMembers ((k, v) # kv # kvs) =
     quoteString k @ '':'' @ quoteString v @ '','' @ encodeMembers (kv # kvs)"

definition sortedKeys :: "fields \<Rightarrow> string list" where
  "sortedKeys m = sort (remdups (map fst m))"

definition jsonMarshal :: "fields \<Rightarrow> go_error + string" where
  "jsonMarshal m = Inr (''{'' @ encodeMembers (map (\<lambda>k. (k, index m k)) (sortedKeys m)) @ ''}'')"

paragraph \<open>\<open>json.Unmarshal\<close>\<close>

text \<open>
  A string literal is decoded as the scanner and \<open>unquote\<close> do it together. \<open>getu4\<close>
  reads a Unicode escape, the backslash, \<open>u\<close> and four hexadecimal digits; a surrogate
  pair gives one rune, a lone surrogate U+FFFD. A quote or a control character below
  \<open>0x20\<close> is not part of a literal, and after a backslash only the quote, the
  backslash, the slash, \<open>b\<close>, \<open>f\<close>, \<open>n\<close>, \<open>r\<close>, \<open>t\<close> and \<open>u\<close> are accepted. A byte that
  starts no valid UTF-8 encoding is decoded as U+FFFD.
\<close>

definition hexValue :: "char \<Rightarrow> nat option" where
  "hexValue c =
     (let b = of_char c :: nat in
      if 0x30 \<le> b \<and> b \<le> 0x39 then Some (b - 0x30)
      else if 0x61 \<le> b \<and> b \<le> 0x66 then Some (b - 0x61 + 10)
      else if 0x41 \<le> b \<and> b \<le> 0x46 then Some (b - 0x41 + 10)
      else None)"

definition getu4 :: "string \<Rightarrow> nat option" where
  "getu4 s =
     (if length s < 6 \<or> s ! 0 \<noteq> CHR 0x5C \<or> s ! 1 \<noteq> CHR ''u'' then None
      else
        (case (hexValue (s ! 2), hexValue (s ! 3), hexValue (s ! 4), hexValue (s ! 5)) of
           (Some a, Some b, Some c, Some d) \<Rightarrow> Some (((a * 16 + b) * 16 + c) * 16 + d)
         | _ \<Rightarrow> None))"

definition IsSurrogate :: "nat \<Rightarrow> bool" where
  "IsSurrogate r = (0xD800 \<le> r \<and> r < 0xE000)"

definition utf16_DecodeRune :: "nat \<Rightarrow> nat option \<Rightarrow> nat" where
  "utf16_DecodeRune r r2 =
     (case r2 of
        None \<Rightarrow> RuneError
      | Some s \<Rightarrow>
          if 0xD800 \<le> r \<and> r < 0xDC00 \<and> 0xDC00 \<le> s \<and> s < 0xE000
          then (r - 0xD800) * 1024 + (s - 0xDC00) + 0x10000
          else RuneError)"

definition simpleEscape :: "char \<Rightarrow> char option" where
  "simpleEscape e =
     (if e = CHR 0x22 \<or> e = CHR 0x5C \<or> e = CHR ''/'' then Some e
      else if e = CHR ''b'' then Some (CHR 0x08)
      else if e = CHR ''f'' then Some (CHR 0x0C)
      else if e = CHR ''n'' then Some (CHR 0x0A)
      else if e = CHR ''r'' then Some (CHR 0x0D)
      else if e = CHR ''t'' then Some (CHR 0x09)
      else None)"

text \<open>One step of the decoder in a string literal: the bytes decoded and the input consumed.\<close>

definition unquoteStep :: "string \<Rightarrow> (string \<times> nat) option" where
  "unquoteStep s =
     (case s of
        [] \<Rightarrow> None
      | c # cs \<Rightarrow>
          if c = CHR 0x5C then
            (case cs of
               [] \<Rightarrow> None
             | e # es \<Rightarrow>
                 if e = CHR ''u'' then
                   (case getu4 s of
                      None \<Rightarrow> None
                    | Some rr \<Rightarrow>
                        if IsSurrogate rr then
                          (let dec = utf16_DecodeRune rr (getu4 (drop 6 s)) in
                           if dec \<noteq> RuneError then Some (EncodeRune dec, 12)
                           else Some (EncodeRune RuneError, 6))
                        else Some (EncodeRune rr, 6))
                 else
                   (case simpleEscape e of
                      None \<Rightarrow> None
                    | Some d \<Rightarrow> Some ([d], 2)))
          else if c = CHR 0x22 \<or> (of_char c :: nat) < 0x20 then None
          else if (of_char c :: nat) < 0x80 then Some ([c], 1)
          else (case DecodeRune s of (rr, sz) \<Rightarrow> Some (EncodeRune rr, sz)))"


lemma unquoteStep_pos: "unquoteStep s = Some (out, n) \<Longrightarrow> 0 < n"
  by (auto simp: unquoteStep_def Let_def split: list.splits option.splits if_splits prod.splits
      dest: DecodeRune_pos [OF sym])

text \<open>
  The rest of a string literal after its opening quote: the text decoded up to the
  closing quote, and the input after that quote.
\<close>

function unquoteRest :: "string \<Rightarrow> (string \<times> string) option" where
  "unquoteRest s =
     (case s of
        [] \<Rightarrow> None
      | c # cs \<Rightarrow>
          if c = CHR 0x22 then Some ([], cs)
          else
            (case unquoteStep s of
               None \<Rightarrow> None
             | Some (out, n) \<Rightarrow>
                 (case unquoteRest (drop n s) of
                    None \<Rightarrow> None
                  | Some (v, rest) \<Rightarrow> Some (out @ v, rest))))"
  by pat_completeness auto
termination
  by (relation "measure length") (auto dest: unquoteStep_pos)

declare unquoteRest.simps [simp del]

lemma unquoteRest_shorter:
  "unquoteRest s = Some (v, rest) \<Longrightarrow> length rest < length s"
proof (induction s arbitrary: v rest rule: unquoteRest.induct)
  case (1 s)
  show ?case
  proof (cases s)
    case Nil
    with "1.prems" show ?thesis
      by (simp add: unquoteRest.simps)
  next
    case (Cons c cs)
    show ?thesis
    proof (cases "c = CHR 0x22")
      case True
      with Cons "1.prems" show ?thesis
        by (simp add: unquoteRest.simps)
    next
      case False
      with Cons "1.prems" obtain out n v1 where
        st: "unquoteStep s = Some (out, n)" and r: "unquoteRest (drop n s) = Some (v1, rest)"
        by (subst (asm) unquoteRest.simps) (auto split: option.splits)
      from "1.IH" [OF Cons False st refl r] have "length rest < length (drop n s)" .
      then show ?thesis
        by simp
    qed
  qed
qed

definition isSpace :: "char \<Rightarrow> bool" where
  "isSpace c = (c = CHR 0x20 \<or> c = CHR 0x09 \<or> c = CHR 0x0D \<or> c = CHR 0x0A)"

definition skipSpace :: "string \<Rightarrow> string" where
  "skipSpace s = dropWhile isSpace s"

lemma skipSpace_le: "length (skipSpace s) \<le> length s"
  by (simp add: skipSpace_def length_dropWhile_le)

text \<open>
  A value of the map: a string literal, or \<open>null\<close>, which leaves the element at the
  empty string. Every other value is an error for a \<open>map[string]string\<close>.
\<close>

definition stringOrNull :: "string \<Rightarrow> (string \<times> string) option" where
  "stringOrNull s =
     (case s of
        [] \<Rightarrow> None
      | c # cs \<Rightarrow>
          if c = CHR 0x22 then unquoteRest cs
          else if take 4 s = ''null'' then Some ([], drop 4 s)
          else None)"

lemma stringOrNull_shorter:
  "stringOrNull s = Some (v, rest) \<Longrightarrow> length rest < length s"
  by (auto simp: stringOrNull_def split: list.splits if_splits dest: unquoteRest_shorter)

text \<open>
  The members of an object from the opening quote of a key on, up to the closing
  brace: the pairs read, the last one first, and the input after the brace.
\<close>

function objectMembers :: "string \<Rightarrow> fields \<Rightarrow> (fields \<times> string) option" where
  "objectMembers s acc =
     (case s of
        [] \<Rightarrow> None
      | c # s1 \<Rightarrow>
          if c \<noteq> CHR 0x22 then None
          else
            (case unquoteRest s1 of
               None \<Rightarrow> None
             | Some (k, s2) \<Rightarrow>
                 (case skipSpace s2 of
                    [] \<Rightarrow> None
                  | d # s3 \<Rightarrow>
                      if d \<noteq> CHR '':'' then None
                      else
                        (case stringOrNull (skipSpace s3) of
                           None \<Rightarrow> None
                         | Some (v, s4) \<Rightarrow>
                             (case skipSpace s4 of
                                [] \<Rightarrow> None
                              | e # s5 \<Rightarrow>
                                  if e = CHR '','' then objectMembers (skipSpace s5) ((k, v) # acc)
                                  else if e = CHR ''}'' then Some ((k, v) # acc, s5)
                                  else None)))))"
  by pat_completeness auto
termination
proof (relation "measure (\<lambda>(s, acc). length s)")
  fix s :: string and acc :: fields and c s1 x k s2 d s3 y v s4 e s5
  assume a: "s = c # s1" "unquoteRest s1 = Some x" "(k, s2) = x" "skipSpace s2 = d # s3"
    "stringOrNull (skipSpace s3) = Some y" "(v, s4) = y" "skipSpace s4 = e # s5"
  have "length (skipSpace s5) \<le> length s5"
    by (rule skipSpace_le)
  also have "length s5 < length (skipSpace s4)"
    using a(7) by simp
  also have "length (skipSpace s4) \<le> length s4"
    by (rule skipSpace_le)
  also have "length s4 < length (skipSpace s3)"
    using a(5,6) stringOrNull_shorter by metis
  also have "length (skipSpace s3) \<le> length s3"
    by (rule skipSpace_le)
  also have "length s3 < length (skipSpace s2)"
    using a(4) by simp
  also have "length (skipSpace s2) \<le> length s2"
    by (rule skipSpace_le)
  also have "length s2 < length s1"
    using a(2,3) unquoteRest_shorter by metis
  also have "length s1 < length s"
    using a(1) by simp
  finally show "((skipSpace s5, (k, v) # acc), s, acc) \<in> measure (\<lambda>(s, acc). length s)"
    by simp
qed simp

declare objectMembers.simps [simp del]

text \<open>
  \<open>json.Unmarshal\<close> into a nil \<open>map[string]string\<close>. White space (space, tab, carriage
  return, line feed) may stand around every token. The input is an object whose values
  are strings or \<open>null\<close>, or it is \<open>null\<close>, which leaves the map nil; a later member
  replaces an earlier one of the same key, so the members are kept last one first for
  \<open>map_of\<close>. \<open>jsonError\<close> stands for the \<open>SyntaxError\<close> or \<open>UnmarshalTypeError\<close> of
  every other input; the text of these errors is not modelled.
\<close>

definition jsonError :: go_error where
  "jsonError = ErrorString ''json: invalid input for map[string]string''"

definition jsonUnmarshal :: "string \<Rightarrow> go_error + fields" where
  "jsonUnmarshal data =
     (case skipSpace data of
        [] \<Rightarrow> Inl jsonError
      | c # s1 \<Rightarrow>
          if c = CHR ''{'' then
            (case skipSpace s1 of
               [] \<Rightarrow> Inl jsonError
             | d # s2 \<Rightarrow>
                 if d = CHR ''}'' then (if skipSpace s2 = [] then Inr [] else Inl jsonError)
                 else
                   (case objectMembers (d # s2) [] of
                      None \<Rightarrow> Inl jsonError
                    | Some (m, rest) \<Rightarrow> if skipSpace rest = [] then Inr m else Inl jsonError))
          else if take 4 (c # s1) = ''null'' \<and> skipSpace (drop 4 (c # s1)) = [] then Inr []
          else Inl jsonError)"

text \<open>
  The string with every byte that is not part of a valid UTF-8 encoding replaced by the
  three bytes of U+FFFD.
\<close>

function coerceUTF8 :: "string \<Rightarrow> string" where
  "coerceUTF8 s =
     (if s = [] then []
      else if DecodeRune (take 4 s) = (RuneError, 1)
      then [CHR 0xEF, CHR 0xBF, CHR 0xBD] @ coerceUTF8 (drop 1 s)
      else take (snd (DecodeRune (take 4 s))) s
           @ coerceUTF8 (drop (snd (DecodeRune (take 4 s))) s))"
  by pat_completeness auto
termination
proof (relation "measure length")
  fix s :: string
  assume "s \<noteq> []"
  then have "1 \<le> snd (DecodeRune (take 4 s))"
    using DecodeRune_size [of "take 4 s"] by simp
  with \<open>s \<noteq> []\<close> show "(drop (snd (DecodeRune (take 4 s))) s, s) \<in> measure length"
    by (cases s) auto
qed auto

declare coerceUTF8.simps [simp del]


section \<open>Configuration checks of the encryption settings\<close>

record Config =
  Encrypt :: bool
  cfgPSK :: string

text \<open>
  \<open>enforceEncryptionRequirements\<close>: the exit code of the process when the check ends
  it, \<open>None\<close> when it returns.
\<close>

definition enforceEncryptionRequirements :: "Config \<Rightarrow> nat option" where
  "enforceEncryptionRequirements cfg =
     (if \<not> Encrypt cfg then None
      else
        (let psk = TrimSpace (cfgPSK cfg) in
         if psk = [] then Some 2
         else if length psk < 32 then Some 2
         else None))"

definition Config_EncryptionSettings :: "Config \<Rightarrow> EncryptionSettings" where
  "Config_EncryptionSettings c = \<lparr>Enabled = Encrypt c, PSK = cfgPSK c\<rparr>"


section \<open>Stand-ins for the libraries, for evaluation\<close>

text \<open>
  A stand-in for the cipher: it leaves the plaintext as it is and appends a tag of 16
  bytes made from the key and the nonce. It has the two properties of an AEAD that
  the wrapper relies on: \<open>Open\<close> under the nonce of \<open>Seal\<close> returns the plaintext, and
  the ciphertext is 16 bytes longer than the plaintext. The stand-in for the digest
  cuts or pads its input to 32 bytes.
\<close>

definition toyTag :: "byte list \<Rightarrow> byte list \<Rightarrow> byte list" where
  "toyTag key nonce = take 16 (key @ nonce @ replicate 16 0)"

definition toyAEAD :: "byte list \<Rightarrow> cipher_AEAD" where
  "toyAEAD key =
     \<lparr>Seal = (\<lambda>nonce p. p @ toyTag key nonce),
      Open = (\<lambda>nonce ct.
        if 16 \<le> length ct \<and> drop (length ct - 16) ct = toyTag key nonce
        then Inr (take (length ct - 16) ct)
        else Inl (ErrorString ''chacha20poly1305: message authentication failed''))\<rparr>"

definition toyCrypto :: crypto where
  "toyCrypto =
     \<lparr>Sum256 = (\<lambda>b. take 32 (b @ replicate 32 0)),
      NewX = (\<lambda>key. if length key \<noteq> 32
                     then Inl (ErrorString ''chacha20poly1305: bad key length'')
                     else Inr (toyAEAD key))\<rparr>"


section \<open>Scenarios of the encryption wrapper\<close>

text \<open>The bytes of the frame for plaintext \<open>p\<close> under the counter value \<open>ctr\<close>.\<close>

definition aeadFrame :: "cipher_AEAD \<Rightarrow> 64 word \<Rightarrow> byte list \<Rightarrow> byte list" where
  "aeadFrame a ctr p =
     (let nonce = replicate 16 0 @ PutUint64 ctr; ct = Seal a nonce p
      in PutUint32 (word_of_nat (length ct)) @ nonce @ ct)"

fun aeadFrames :: "cipher_AEAD \<Rightarrow> 64 word \<Rightarrow> byte list list \<Rightarrow> byte list" where
  "aeadFrames a ctr [] = []"
| "aeadFrames a ctr (p # ps) = aeadFrame a ctr p @ aeadFrames a (ctr + 1) ps"

text \<open>
  A writer made by \<open>Wrap\<close> over an empty sink writes the plaintexts \<open>ps\<close>; a reader
  made by \<open>Wrap\<close> from the same PSK and tunnel id over the bytes that reached the sink
  reads with buffers of the sizes \<open>caps\<close>. The results of the writes and of the reads;
  \<open>None\<close> when \<open>Wrap\<close> gives no wrapper.
\<close>

definition roundtrip ::
  "crypto \<Rightarrow> ClientPSK \<Rightarrow> string \<Rightarrow> byte list list \<Rightarrow> nat list
     \<Rightarrow> ((nat \<times> go_error option) list \<times> (byte list \<times> go_error option) list) option" where
  "roundtrip lib psk tid ps caps =
     (case Wrap lib psk bytes_writer tid of
        Sealed wr \<Rightarrow>
          (case Writes wr ps of
             (ws, wr1) \<Rightarrow>
               (case Wrap lib psk (bytes_reader (outbuf (base wr1))) tid of
                  Sealed rd \<Rightarrow> Some (ws, fst (Reads rd caps))
                | Plain s \<Rightarrow> None
                | Nil \<Rightarrow> None))
      | Plain s \<Rightarrow> None
      | Nil \<Rightarrow> None)"


section \<open>Properties\<close>

lemma Uint16_PutUint16: "Uint16 (PutUint16 v) = v"
  unfolding Uint16_def PutUint16_def
  by (rule bit_word_eqI) (auto simp: bit_simps)


subsection \<open>UDP frames\<close>

lemma ToUint16Size_ok:
  "length P \<le> 65535 \<Longrightarrow> ToUint16Size (int (length P)) = Inr (word_of_nat (length P))"
  by (simp add: ToUint16Size_def toUintSize_def MaxInt_def)

lemma ToUint16Size_big: "65535 < length P \<Longrightarrow> \<exists>e. ToUint16Size (int (length P)) = Inl e"
  by (simp add: ToUint16Size_def toUintSize_def MaxInt_def)

lemma PutUint16_split:
  "take 2 (PutUint16 v @ P) = PutUint16 v" "drop 2 (PutUint16 v @ P) = P"
  "length (PutUint16 v) = 2" "PutUint16 v \<noteq> []"
  by (simp_all add: PutUint16_def)

lemma writeUDPPacket_bytes:
  assumes "length P \<le> 65535"
  shows "writeUDPPacket bytes_writer P =
           (None, \<lparr>inbuf = [], outbuf = PutUint16 (word_of_nat (length P)) @ P, wfaults = []\<rparr>)"
  using assms
  by (simp add: writeUDPPacket_def ToUint16Size_ok stream_Write_def bytes_writer_def)

lemma readUDPPacket_frame:
  assumes "1 \<le> length P" "length P \<le> 65535"
  shows "fst (readUDPPacket (bytes_reader (PutUint16 (word_of_nat (length P)) @ P))) = Inr P"
proof -
  have u: "uint (word_of_nat (length P) :: 16 word) = int (length P)"
    using assms by (simp add: uint_nat unat_of_nat)
  have ne: "P \<noteq> []"
    using assms by auto
  show ?thesis
    using assms u ne
    by (simp add: readUDPPacket_def ReadFull_def bytes_reader_def PutUint16_split
        Uint16_PutUint16 udpMaxPacketSize_def Let_def)
qed

lemma readUDPPacket_zero:
  "fst (readUDPPacket (bytes_reader (PutUint16 0 @ rest))) = Inl ErrUnexpectedEOF"
  by (simp add: readUDPPacket_def ReadFull_def bytes_reader_def PutUint16_split
      Uint16_PutUint16 Let_def)

text \<open>
  Claim C2. For every payload \<open>P\<close> of 1 to 65535 bytes, \<open>readUDPPacket\<close> on the bytes
  that \<open>writeUDPPacket\<close> produced for \<open>P\<close> returns exactly \<open>P\<close>; \<open>readUDPPacket\<close> fails on
  a frame whose big-endian 16-bit length header is 0, whatever follows it; and
  \<open>writeUDPPacket\<close> fails, writing nothing, for a payload of more than 65535 bytes.
\<close>

theorem udp_frame_roundtrip:
  "(1 \<le> length P \<and> length P \<le> 65535 \<longrightarrow>
      fst (readUDPPacket (bytes_reader (outbuf (snd (writeUDPPacket bytes_writer P))))) = Inr P)
   \<and> fst (readUDPPacket (bytes_reader (PutUint16 0 @ rest))) = Inl ErrUnexpectedEOF
   \<and> (65535 < length Q \<longrightarrow> (\<exists>e. writeUDPPacket w Q = (Some e, w)))"
proof (intro conjI impI)
  assume "1 \<le> length P \<and> length P \<le> 65535"
  then show "fst (readUDPPacket (bytes_reader (outbuf (snd (writeUDPPacket bytes_writer P))))) = Inr P"
    by (simp add: writeUDPPacket_bytes readUDPPacket_frame)
next
  show "fst (readUDPPacket (bytes_reader (PutUint16 0 @ rest))) = Inl ErrUnexpectedEOF"
    by (rule readUDPPacket_zero)
next
  assume "65535 < length Q"
  then obtain e where "ToUint16Size (int (length Q)) = Inl e"
    using ToUint16Size_big by blast
  then show "\<exists>e. writeUDPPacket w Q = (Some e, w)"
    by (simp add: writeUDPPacket_def)
qed

theorem udp_frame_roundtrip_witness:
  "fst (readUDPPacket (bytes_reader (outbuf (snd (writeUDPPacket bytes_writer [112, 105, 110, 103])))))
     = Inr [112, 105, 110, 103]
   \<and> fst (readUDPPacket (bytes_reader (PutUint16 0 @ [112]))) = Inl ErrUnexpectedEOF
   \<and> (\<exists>e. writeUDPPacket bytes_writer (replicate 65536 0) = (Some e, bytes_writer))"
  using udp_frame_roundtrip [of "[112, 105, 110, 103]" "[112]" "replicate 65536 0" bytes_writer]
  by simp

subsection \<open>Backoff\<close>

lemma sint_double:
  "- (2 ^ 62) \<le> sint (b :: 64 word) \<Longrightarrow> sint b < 2 ^ 62 \<Longrightarrow> sint (b * 2) = 2 * sint b"
  by (simp add: sint_word_ariths signed_take_bit_int_eq_self)

lemma nextBackoff_min:
  assumes "- (2 ^ 62) \<le> sint b" "sint b < 2 ^ 62"
  shows "sint (nextBackoff b l) = min (2 * sint b) (sint l)"
  using assms by (auto simp: nextBackoff_def Let_def word_sless_alt sint_double)

lemma dialLoop_sleeps:
  assumes "\<not> stopped m"
    and "\<And>i. i < k \<Longrightarrow> attemptFails (dial_plan w (length (dials w) + i))"
    and "dial_plan w (length (dials w) + k) = DialConn c (SmuxSession s)"
  shows "\<exists>w'. dialLoop params m w b = Some (Inr s, m\<lparr>conn := Some c, sess := Some s\<rparr>, w')
           \<and> slept w' = slept w @ backoffs b (boMax m) k
           \<and> dials w' = dials w @ replicate (Suc k) params"
  using assms
proof (induction k arbitrary: w b)
  case 0
  then show ?case
    by (subst dialLoop.simps) (simp add: initializeSession_def)
next
  case (Suc k)
  have f: "attemptFails (dial_plan w (length (dials w)))"
    using Suc.prems(2) [of 0] by simp
  have g: "\<And>i. i < k \<Longrightarrow> attemptFails (dial_plan w (Suc (length (dials w) + i)))"
    using Suc.prems(2) by force
  show ?case
  proof (cases "dial_plan w (length (dials w))")
    case (DialError err)
    let ?w = "w\<lparr>dials := dials w @ [params], slept := slept w @ [b]\<rparr>"
    have "\<exists>w'. dialLoop params m ?w (nextBackoff b (boMax m))
                  = Some (Inr s, m\<lparr>conn := Some c, sess := Some s\<rparr>, w')
           \<and> slept w' = slept ?w @ backoffs (nextBackoff b (boMax m)) (boMax m) k
           \<and> dials w' = dials ?w @ replicate (Suc k) params"
      using Suc.prems(1,3) g by (intro Suc.IH) auto
    then show ?thesis
      using Suc.prems(1) DialError
      by (subst dialLoop.simps) (auto simp: replicate_app_Cons_same)
  next
    case (DialConn c0 init)
    then obtain err where i: "init = SmuxError err"
      using f by (cases init) (auto simp: attemptFails_def)
    let ?w = "w\<lparr>dials := dials w @ [params], closed_conns := closed_conns w @ [c0],
                slept := slept w @ [b]\<rparr>"
    have "\<exists>w'. dialLoop params m ?w (nextBackoff b (boMax m))
                  = Some (Inr s, m\<lparr>conn := Some c, sess := Some s\<rparr>, w')
           \<and> slept w' = slept ?w @ backoffs (nextBackoff b (boMax m)) (boMax m) k
           \<and> dials w' = dials ?w @ replicate (Suc k) params"
      using Suc.prems(1,3) g by (intro Suc.IH) auto
    then show ?thesis
      using Suc.prems(1) DialConn i
      by (subst dialLoop.simps) (auto simp: replicate_app_Cons_same initializeSession_def)
  qed
qed

lemma backoffs_nth:
  "(0 < k \<longrightarrow> backoffs b l k ! 0 = b) \<and>
   (Suc i < k \<longrightarrow> backoffs b l k ! Suc i = nextBackoff (backoffs b l k ! i) l)"
proof (induction i arbitrary: b k)
  case 0
  then show ?case
    by (cases k; cases "k - 1") auto
next
  case (Suc i)
  show ?case
  proof (cases k)
    case 0
    then show ?thesis by simp
  next
    case (Suc k')
    then show ?thesis
      using Suc.IH [of k' "nextBackoff b l"] by auto
  qed
qed

text \<open>
  Claim C7, as amended. For every current backoff \<open>b\<close> whose double fits the signed
  64-bit \<open>time.Duration\<close> (\<open>-2^62 \<le> b < 2^62\<close> nanoseconds) and every cap, \<open>nextBackoff\<close>
  returns \<open>min (2 * b) cap\<close>. Within one \<open>EnsureSession\<close> call that has to dial, when
  the first \<open>k\<close> attempts fail and the next one succeeds, the call returns the new
  session after exactly \<open>k\<close> sleeps: the first of \<open>boInit\<close>, each later one of
  \<open>nextBackoff\<close> of the one before it under the cap \<open>boMax\<close>.
\<close>

theorem backoff_law:
  "(- (2 ^ 62) \<le> sint b \<and> sint b < 2 ^ 62
      \<longrightarrow> sint (nextBackoff b limit) = min (2 * sint b) (sint limit))
   \<and> (\<not> stopped m \<and> (case sess m of None \<Rightarrow> True | Some s0 \<Rightarrow> IsClosed w s0)
        \<and> fst (sessionDialParams bw m) \<noteq> []
        \<and> (\<forall>i<k. attemptFails (dial_plan w (length (dials w) + i)))
        \<and> dial_plan w (length (dials w) + k) = DialConn c (SmuxSession s)
      \<longrightarrow> (\<exists>w'. EnsureSession bw m w = Some (Inr s, m\<lparr>conn := Some c, sess := Some s\<rparr>, w')
             \<and> slept w' = slept w @ backoffs (boInit m) (boMax m) k))
   \<and> (0 < k \<longrightarrow> backoffs b0 limit k ! 0 = b0)
   \<and> (Suc j < k \<longrightarrow> backoffs b0 limit k ! Suc j = nextBackoff (backoffs b0 limit k ! j) limit)"
proof (intro conjI impI)
  assume "- (2 ^ 62) \<le> sint b \<and> sint b < 2 ^ 62"
  then show "sint (nextBackoff b limit) = min (2 * sint b) (sint limit)"
    by (simp add: nextBackoff_min)
next
  assume a: "\<not> stopped m \<and> (case sess m of None \<Rightarrow> True | Some s0 \<Rightarrow> IsClosed w s0)
        \<and> fst (sessionDialParams bw m) \<noteq> []
        \<and> (\<forall>i<k. attemptFails (dial_plan w (length (dials w) + i)))
        \<and> dial_plan w (length (dials w) + k) = DialConn c (SmuxSession s)"
  then have e: "EnsureSession bw m w = dialLoop (sessionDialParams bw m) m w (boInit m)"
    by (auto simp: EnsureSession_def Let_def split: option.splits)
  from a dialLoop_sleeps [of m k w c s "sessionDialParams bw m" "boInit m"]
  show "\<exists>w'. EnsureSession bw m w = Some (Inr s, m\<lparr>conn := Some c, sess := Some s\<rparr>, w')
             \<and> slept w' = slept w @ backoffs (boInit m) (boMax m) k"
    unfolding e by auto
next
  assume "0 < k"
  then show "backoffs b0 limit k ! 0 = b0"
    using backoffs_nth [of k b0 limit] by simp
next
  assume "Suc j < k"
  then show "backoffs b0 limit k ! Suc j = nextBackoff (backoffs b0 limit k ! j) limit"
    using backoffs_nth [of k b0 limit j] by simp
qed

theorem backoff_law_witness:
  "sint (nextBackoff 5 8) = 8
   \<and> (\<exists>w'. EnsureSession wsURLs (NewManager ''http://relay'' ''t1'' 1000000000 3000000000)
               (refusing 3)
             = Some (Inr 7, (NewManager ''http://relay'' ''t1'' 1000000000 3000000000)
                              \<lparr>conn := Some 1, sess := Some 7\<rparr>, w')
           \<and> slept w' = [1000000000, 2000000000, 3000000000])
   \<and> backoffs 1000000000 3000000000 3 ! 0 = 1000000000
   \<and> backoffs 1000000000 3000000000 3 ! Suc 1
       = nextBackoff (backoffs 1000000000 3000000000 3 ! 1) 3000000000"
  using backoff_law [of 5 8 "NewManager ''http://relay'' ''t1'' 1000000000 3000000000"
      "refusing 3" wsURLs 3 1 7 1000000000 1]
  by (simp add: NewManager_def refusing_def wsURLs_def sessionDialParams_def attemptFails_def
      nextBackoff_def word_sless_alt numeral_3_eq_3 All_less_Suc)

text \<open>
  The claim as stated fails where the doubling leaves the 64-bit range: for a current
  backoff and a cap of \<open>2^62\<close> nanoseconds the result is \<open>-2^63\<close>, not the cap.
\<close>

theorem backoff_law_counterexample:
  "sint (nextBackoff (2 ^ 62) (2 ^ 62)) = - (2 ^ 63)
   \<and> min (2 * sint (2 ^ 62 :: Duration)) (sint (2 ^ 62 :: Duration)) = 2 ^ 62"
  by (simp add: nextBackoff_def word_sless_alt)


subsection \<open>Wrapping a stream\<close>

lemma TrimSpace_Nil: "TrimSpace [] = []"
  by (simp add: TrimSpace_def spaceWidth_def spaceRunes_def)

text \<open>
  Claim C8, as amended. \<open>WrapClientStream\<close> returns the stream unchanged exactly when
  encryption is disabled. When it is enabled the stream is wrapped whatever the PSK
  is, the empty one too: with the cipher that \<open>NewX\<close> builds for the digest of PSK and
  tunnel id, over the given stream, the counter at 0. That an enabled setting carries
  a PSK is the work of \<open>enforceEncryptionRequirements\<close>: a configuration that passes
  it with encryption on has a PSK of at least 32 characters after trimming.
\<close>

theorem WrapClientStream_cases:
  "(WrapClientStream lib s tid enc = Plain s \<longleftrightarrow> \<not> Enabled enc)
   \<and> (Enabled enc \<and> NewX lib (Sum256 lib (bytes_of (PSK enc) @ bytes_of tid)) = Inr a
        \<longrightarrow> WrapClientStream lib s tid enc = Sealed \<lparr>base = s, aead = a, encCtr = 0\<rparr>)
   \<and> (Encrypt cfg \<and> enforceEncryptionRequirements cfg = None
        \<longrightarrow> 32 \<le> length (TrimSpace (cfgPSK cfg)) \<and> PSK (Config_EncryptionSettings cfg) \<noteq> [])"
  by (auto simp: WrapClientStream_def Wrap_def NewClientPSK_def Let_def
      enforceEncryptionRequirements_def Config_EncryptionSettings_def TrimSpace_Nil
      split: sum.splits if_splits)

theorem WrapClientStream_cases_witness:
  "WrapClientStream toyCrypto bytes_writer ''t1''
       \<lparr>Enabled = False, PSK = ''0123456789abcdef0123456789abcdef''\<rparr> = Plain bytes_writer
   \<and> WrapClientStream toyCrypto bytes_writer ''t1''
       \<lparr>Enabled = True, PSK = ''0123456789abcdef0123456789abcdef''\<rparr>
       = Sealed \<lparr>base = bytes_writer,
                 aead = toyAEAD (bytes_of ''0123456789abcdef0123456789abcdef''), encCtr = 0\<rparr>
   \<and> 32 \<le> length (TrimSpace ''0123456789abcdef0123456789abcdef'')"
  using WrapClientStream_cases [of toyCrypto bytes_writer "''t1''"
      "\<lparr>Enabled = False, PSK = ''0123456789abcdef0123456789abcdef''\<rparr>"
      "toyAEAD (bytes_of ''0123456789abcdef0123456789abcdef'')"
      "\<lparr>Encrypt = True, cfgPSK = ''0123456789abcdef0123456789abcdef''\<rparr>"]
    WrapClientStream_cases [of toyCrypto bytes_writer "''t1''"
      "\<lparr>Enabled = True, PSK = ''0123456789abcdef0123456789abcdef''\<rparr>"
      "toyAEAD (bytes_of ''0123456789abcdef0123456789abcdef'')"
      "\<lparr>Encrypt = True, cfgPSK = ''0123456789abcdef0123456789abcdef''\<rparr>"]
  by (simp add: toyCrypto_def bytes_of_def enforceEncryptionRequirements_def TrimSpace_def
      spaceWidth_def spaceRunes_def)

text \<open>
  The claim as stated fails for encryption enabled with the empty PSK: the stream is
  wrapped, keyed by the digest of the tunnel id alone.
\<close>

theorem WrapClientStream_empty_PSK_counterexample:
  "WrapClientStream toyCrypto bytes_writer ''t1'' \<lparr>Enabled = True, PSK = ''''\<rparr>
     = Sealed \<lparr>base = bytes_writer, aead = toyAEAD (bytes_of ''t1'' @ replicate 30 0),
               encCtr = 0\<rparr>
   \<and> WrapClientStream toyCrypto bytes_writer ''t1'' \<lparr>Enabled = True, PSK = ''''\<rparr>
       \<noteq> Plain bytes_writer"
  by (simp add: WrapClientStream_def Wrap_def NewClientPSK_def toyCrypto_def bytes_of_def)

subsection \<open>The closed manager\<close>

lemma stopped_calls:
  assumes "stopped m" "sess m = None" "conn m = None"
  shows "calls bw m w cs
           = Some (replicate (length (filter (\<lambda>c. c = CallEnsure) cs)) (Inl (ErrorString ''stopped'')),
                   m, w)"
  using assms
proof (induction cs)
  case Nil
  then show ?case by simp
next
  case (Cons c cs)
  have cl: "Close m w = (m, w)"
    using Cons.prems by (simp add: Close_def)
  have en: "EnsureSession bw m w = Some (Inl (ErrorString ''stopped''), m, w)"
    using Cons.prems by (simp add: EnsureSession_def)
  show ?case
    using Cons cl en by (cases c) simp_all
qed

text \<open>
  Claim C4. After \<open>Close\<close> the manager is stopped and holds neither session nor
  connection. \<open>EnsureSession\<close> on it, in whatever state the network is by then, returns
  the error \<open>stopped\<close> and no session, and leaves manager and network untouched: no
  dial is added to the log. So in every sequence of later calls each \<open>EnsureSession\<close>
  gives \<open>stopped\<close>, and each further \<open>Close\<close> changes nothing.
\<close>

theorem closed_manager_stopped:
  "(case Close m w of
      (m1, w1) \<Rightarrow>
        stopped m1 \<and> sess m1 = None \<and> conn m1 = None
        \<and> (\<forall>w2. EnsureSession bw m1 w2 = Some (Inl (ErrorString ''stopped''), m1, w2))
        \<and> Close m1 w1 = (m1, w1)
        \<and> calls bw m1 w1 cs
            = Some (replicate (length (filter (\<lambda>c. c = CallEnsure) cs))
                      (Inl (ErrorString ''stopped'')), m1, w1))"
proof -
  obtain m1 w1 where c: "Close m w = (m1, w1)"
    by (cases "Close m w") auto
  then have s: "stopped m1" "sess m1 = None" "conn m1 = None"
    by (auto simp: Close_def Let_def)
  have "\<forall>w2. EnsureSession bw m1 w2 = Some (Inl (ErrorString ''stopped''), m1, w2)"
    using s by (simp add: EnsureSession_def)
  moreover have "Close m1 w1 = (m1, w1)"
    using s by (simp add: Close_def)
  ultimately show ?thesis
    using c s stopped_calls [OF s, of bw w1 cs] by simp
qed

theorem closed_manager_stopped_witness:
  "EnsureSession wsURLs
     (fst (Close ((NewManager ''http://relay'' ''t1'' 1000000000 3000000000)
                    \<lparr>conn := Some 1, sess := Some 7\<rparr>) (refusing 0)))
     (refusing 0)
   = Some (Inl (ErrorString ''stopped''),
           \<lparr>serverURL = ''http://relay'', tunnelID = ''t1'', conn = None, sess = None,
            stopped = True, boInit = 1000000000, boMax = 3000000000\<rparr>,
           refusing 0)
   \<and> calls wsURLs
       (fst (Close ((NewManager ''http://relay'' ''t1'' 1000000000 3000000000)
                      \<lparr>conn := Some 1, sess := Some 7\<rparr>) (refusing 0)))
       (refusing 0) [CallEnsure, CallClose, CallEnsure]
     = Some ([Inl (ErrorString ''stopped''), Inl (ErrorString ''stopped'')],
             \<lparr>serverURL = ''http://relay'', tunnelID = ''t1'', conn = None, sess = None,
              stopped = True, boInit = 1000000000, boMax = 3000000000\<rparr>,
             refusing 0)"
proof -
  let ?m = "(NewManager ''http://relay'' ''t1'' 1000000000 3000000000)
              \<lparr>conn := Some 1, sess := Some 7\<rparr>"
  let ?m1 = "\<lparr>serverURL = ''http://relay'', tunnelID = ''t1'', conn = None, sess = None,
              stopped = True, boInit = 1000000000, boMax = 3000000000\<rparr>"
  have f: "fst (Close ?m (refusing 0)) = ?m1"
    by (simp add: Close_def NewManager_def Let_def)
  have c: "Close ?m1 (refusing 0) = (?m1, refusing 0)"
    by (simp add: Close_def)
  from closed_manager_stopped [where bw = wsURLs and w = "refusing 0" and m = ?m1
      and cs = "[CallEnsure, CallClose, CallEnsure]"]
  show ?thesis
    unfolding f c by simp
qed

subsection \<open>Size caps of the WebSocket adapter\<close>

text \<open>
  Claim C6. \<open>Read\<close> with a buffer of more than 65536 bytes and \<open>Write\<close> of more than
  1048576 bytes return an error and leave the adapter and its connection as they
  were: the log of operations on the connection is the same after the call.
\<close>

theorem wsconn_size_caps:
  "(65536 < plen \<longrightarrow>
      WSConn_Read w plen
        = (([], Some (ErrorString ''requested buffer size exceeds maximum allowed'')), w))
   \<and> (1048576 < length p \<longrightarrow>
      WSConn_Write w p
        = Some ((0, Some (ErrorString ''message size exceeds maximum allowed'')), w))"
  by (simp add: WSConn_Read_def WSConn_Write_def MaxWebSocketFrameSize_def
      MaxWebSocketMessageSize_def)

theorem wsconn_size_caps_witness:
  "WSConn_Read
     \<lparr>sock = Some \<lparr>incoming = [(BinaryMessage, [111, 107], EOF)], next_err = EOF,
                    writer_err = None, write_err = None, close_err = None, sent = [],
                    ops = []\<rparr>,
      currReader = None\<rparr> 65537
   = (([], Some (ErrorString ''requested buffer size exceeds maximum allowed'')),
      \<lparr>sock = Some \<lparr>incoming = [(BinaryMessage, [111, 107], EOF)], next_err = EOF,
                     writer_err = None, write_err = None, close_err = None, sent = [],
                     ops = []\<rparr>,
       currReader = None\<rparr>)
   \<and> WSConn_Write
     \<lparr>sock = Some \<lparr>incoming = [], next_err = EOF, writer_err = None, write_err = None,
                    close_err = None, sent = [], ops = []\<rparr>,
      currReader = None\<rparr> (replicate 1048577 0)
   = Some ((0, Some (ErrorString ''message size exceeds maximum allowed'')),
      \<lparr>sock = Some \<lparr>incoming = [], next_err = EOF, writer_err = None, write_err = None,
                     close_err = None, sent = [], ops = []\<rparr>,
       currReader = None\<rparr>)"
  using wsconn_size_caps [of 65537
      "\<lparr>sock = Some \<lparr>incoming = [(BinaryMessage, [111, 107], EOF)], next_err = EOF,
                     writer_err = None, write_err = None, close_err = None, sent = [],
                     ops = []\<rparr>,
        currReader = None\<rparr>"
      "replicate 1048577 0"]
    wsconn_size_caps [of 65537
      "\<lparr>sock = Some \<lparr>incoming = [], next_err = EOF, writer_err = None, write_err = None,
                     close_err = None, sent = [], ops = []\<rparr>,
        currReader = None\<rparr>"
      "replicate 1048577 0"]
  by simp

subsection \<open>Errors of the bridge's copy loop\<close>

text \<open>
  Claim C5, as amended. In the bridge's copy loop the end of the source (\<open>io.EOF\<close>)
  and every error whose text contains \<open>closed pipe\<close> produce no log line, and these
  are the only ends of a copy without one: any other error, read or written, is
  logged.
\<close>

theorem bridge_benign:
  "startBufferedCopy label (ReadEnded EOF) = []
   \<and> (Contains (Error err) ''closed pipe'' \<longrightarrow>
        startBufferedCopy label (ReadEnded err) = []
        \<and> startBufferedCopy label (WriteFailed err) = [])
   \<and> (startBufferedCopy label e = [] \<longleftrightarrow>
        e = ReadEnded EOF \<or> e = WriteFailed EOF
        \<or> (\<exists>err. (e = ReadEnded err \<or> e = WriteFailed err)
                  \<and> Contains (Error err) ''closed pipe''))"
  by (cases e)
    (auto simp: startBufferedCopy_def copyLog_def CopyBuffer_err_def isClosedPipe_def)

theorem bridge_benign_witness:
  "startBufferedCopy ''a->b'' (ReadEnded EOF) = []
   \<and> startBufferedCopy ''a->b'' (ReadEnded ErrClosedPipe) = []
   \<and> startBufferedCopy ''a->b'' (WriteFailed ErrClosedPipe) = []
   \<and> startBufferedCopy ''a->b'' (WriteFailed (ErrorString ''write: closed pipe'')) = []"
  using bridge_benign [of "''a->b''" ErrClosedPipe "WriteFailed (ErrorString ''write: closed pipe'')"]
  by simp

text \<open>
  The claim as stated fails for the other errors of the family: an unexpected end of
  file, a closed network connection and a broken pipe each give a logged line in the
  bridge, while \<open>IsBenignCopyError\<close>, which the incoming-stream path uses, takes all
  three as benign.
\<close>

theorem bridge_benign_counterexample:
  "startBufferedCopy ''a->b'' (ReadEnded ErrUnexpectedEOF)
     = [''client bridge: copy a->b error: unexpected EOF'']
   \<and> startBufferedCopy ''a->b'' (ReadEnded NetErrClosed)
     = [''client bridge: copy a->b error: use of closed network connection'']
   \<and> startBufferedCopy ''a->b'' (WriteFailed (ErrorString ''write: broken pipe''))
     = [''client bridge: copy a->b error: write: broken pipe'']
   \<and> IsBenignCopyError (Some ErrUnexpectedEOF)
   \<and> IsBenignCopyError (Some NetErrClosed)
   \<and> IsBenignCopyError (Some (ErrorString ''write: broken pipe''))"
  by (simp add: startBufferedCopy_def copyLog_def CopyBuffer_err_def isClosedPipe_def
      IsBenignCopyError_def)


subsection \<open>The encryption wrapper\<close>

lemma Uint32_PutUint32: "Uint32 (PutUint32 v) = v"
proof (rule bit_word_eqI)
  fix n assume "n < LENGTH(32)"
  then consider "n < 8" | "8 \<le> n" "n < 16" | "16 \<le> n" "n < 24" | "24 \<le> n" "n < 32"
    by fastforce
  then show "bit (Uint32 (PutUint32 v)) n = bit v n"
    by cases (auto simp: bit_simps Uint32_def PutUint32_def)
qed

lemma Uint64_PutUint64: "Uint64 (PutUint64 v) = v"
proof (rule bit_word_eqI)
  fix n assume "n < LENGTH(64)"
  then consider "n < 8" | "8 \<le> n" "n < 16" | "16 \<le> n" "n < 24" | "24 \<le> n" "n < 32"
    | "32 \<le> n" "n < 40" | "40 \<le> n" "n < 48" | "48 \<le> n" "n < 56" | "56 \<le> n" "n < 64"
    by fastforce
  then show "bit (Uint64 (PutUint64 v)) n = bit v n"
    by cases (auto simp: bit_simps Uint64_def PutUint64_def)
qed

lemma PutUint64_inj: "PutUint64 v = PutUint64 w \<Longrightarrow> v = w"
  by (metis Uint64_PutUint64)

lemma length_PutUint [simp]: "length (PutUint64 v) = 8" "length (PutUint32 u) = 4"
  by (simp_all add: PutUint64_def PutUint32_def)

lemma Write_counter:
  "ClientAEAD_Write c p = (r, c1, ev) \<Longrightarrow>
     encCtr c1 = encCtr c + 1 \<and> aead c1 = aead c
     \<and> (\<exists>bs. ev = CtrStore (encCtr c + 1)
                   # SealCall (replicate 16 0 @ PutUint64 (encCtr c)) # map BaseWrite bs)"
proof -
  assume a: "ClientAEAD_Write c p = (r, c1, ev)"
  let ?n = "replicate 16 0 @ PutUint64 (encCtr c)"
  let ?ct = "Seal (aead c) ?n p"
  let ?s = "CtrStore (encCtr c + 1)"
  from a have "encCtr c1 = encCtr c + 1 \<and> aead c1 = aead c \<and>
      (ev = ?s # SealCall ?n # map BaseWrite [] \<or>
       (\<exists>l. ev = ?s # SealCall ?n # map BaseWrite [PutUint32 l @ ?n]) \<or>
       (\<exists>l. ev = ?s # SealCall ?n # map BaseWrite [PutUint32 l @ ?n, ?ct]))"
    by (auto simp: ClientAEAD_Write_def Let_def split: sum.splits prod.splits)
  then show ?thesis
    by blast
qed

lemma sealNonces_writes: "sealNonces (map BaseWrite bs) = []"
  by (induction bs) simp_all

lemma Write_nonce:
  "ClientAEAD_Write c p = (r, c1, ev) \<Longrightarrow>
     sealNonces ev = [replicate 16 0 @ PutUint64 (encCtr c)]"
  using Write_counter [of c p r c1 ev] by (auto simp: sealNonces_writes)


lemma nonces_eq:
  "nonces c ps = map (\<lambda>k. replicate 16 0 @ PutUint64 (encCtr c + word_of_nat k)) [0..<length ps]"
proof (induction ps arbitrary: c)
  case Nil
  then show ?case by simp
next
  case (Cons p ps)
  obtain r c1 ev where w: "ClientAEAD_Write c p = (r, c1, ev)"
    by (cases "ClientAEAD_Write c p") auto
  then have c1: "encCtr c1 = encCtr c + 1"
    and n: "sealNonces ev = [replicate 16 0 @ PutUint64 (encCtr c)]"
    using Write_counter Write_nonce by blast+
  have "map (\<lambda>k. replicate 16 0 @ PutUint64 (encCtr c + word_of_nat k)) [0..<length (p # ps)]
      = (replicate 16 0 @ PutUint64 (encCtr c))
        # map (\<lambda>k. replicate 16 0 @ PutUint64 (encCtr c + word_of_nat (Suc k))) [0..<length ps]"
    by (simp add: upt_rec [of 0] map_Suc_upt [symmetric] del: upt_Suc)
  also have "\<dots> = (replicate 16 0 @ PutUint64 (encCtr c))
        # map (\<lambda>k. replicate 16 0 @ PutUint64 (encCtr c1 + word_of_nat k)) [0..<length ps]"
    by (simp add: c1 ac_simps)
  finally show ?case
    using w n Cons.IH [of c1] by simp
qed

lemma word64_of_nat_inj:
  assumes "k < 2 ^ 64" "j < 2 ^ 64" "(word_of_nat k :: 64 word) = word_of_nat j"
  shows "k = j"
proof -
  have "unat (word_of_nat k :: 64 word) = unat (word_of_nat j :: 64 word)"
    using assms(3) by simp
  then show ?thesis
    using assms(1,2) by (simp add: unat_of_nat)
qed

lemma nonces_distinct:
  assumes "length ps \<le> 2 ^ 64"
  shows "distinct (nonces c ps)"
proof -
  have "inj_on (\<lambda>k. replicate 16 0 @ PutUint64 (encCtr c + word_of_nat k)) (set [0..<length ps])"
  proof (rule inj_onI)
    fix k j assume k: "k \<in> set [0..<length ps]" and j: "j \<in> set [0..<length ps]"
      and e: "replicate 16 0 @ PutUint64 (encCtr c + word_of_nat k)
              = replicate 16 0 @ PutUint64 (encCtr c + word_of_nat j)"
    from e have "encCtr c + word_of_nat k = encCtr c + word_of_nat j"
      by (auto dest: PutUint64_inj)
    then have "(word_of_nat k :: 64 word) = word_of_nat j"
      by simp
    moreover have "k < 2 ^ 64" "j < 2 ^ 64"
      using k j assms by auto
    ultimately show "k = j"
      by (rule word64_of_nat_inj [rotated 2])
  qed
  then show ?thesis
    by (simp add: nonces_eq distinct_map)
qed


lemma ReadFull_append:
  assumes "inbuf s = h @ t" "length h = n"
  shows "ReadFull s n = (Inr h, s\<lparr>inbuf := t\<rparr>)"
proof (cases "n = 0")
  case True
  with assms have "h = []" "inbuf s = t" by auto
  then have "s\<lparr>inbuf := t\<rparr> = s" by simp
  with True \<open>h = []\<close> show ?thesis by (simp add: ReadFull_def)
next
  case False
  with assms show ?thesis by (auto simp: ReadFull_def)
qed

lemma ToUint32Size_ok:
  "n \<le> 4294967295 \<Longrightarrow> ToUint32Size (int n) = Inr (word_of_nat n)"
  by (simp add: ToUint32Size_def toUintSize_def MaxInt_def)

lemma Write_ok:
  assumes "wfaults (base c) = []"
    and "length (Seal (aead c) (replicate 16 0 @ PutUint64 (encCtr c)) p) \<le> 4294967295"
  shows "\<exists>ev. ClientAEAD_Write c p =
           ((length p, None),
            c\<lparr>encCtr := encCtr c + 1,
              base := (base c)\<lparr>outbuf := outbuf (base c) @ aeadFrame (aead c) (encCtr c) p\<rparr>\<rparr>, ev)"
  using assms
  by (simp add: ClientAEAD_Write_def Let_def ToUint32Size_ok stream_Write_def aeadFrame_def)

lemma Read_frame:
  assumes "inbuf (base r) = aeadFrame a ctr p @ rest"
    and "Open (aead r) (replicate 16 0 @ PutUint64 ctr) (Seal a (replicate 16 0 @ PutUint64 ctr) p) = Inr p"
    and "length (Seal a (replicate 16 0 @ PutUint64 ctr) p) \<le> 4294967295"
    and "length p \<le> plen"
  shows "ClientAEAD_Read r plen = ((p, None), r\<lparr>base := (base r)\<lparr>inbuf := rest\<rparr>\<rparr>)"
proof -
  let ?n = "replicate 16 0 @ PutUint64 ctr"
  let ?ct = "Seal a ?n p"
  let ?l = "word_of_nat (length ?ct) :: 32 word"
  have f: "inbuf (base r) = (PutUint32 ?l @ ?n) @ ?ct @ rest"
    using assms(1) by (simp add: aeadFrame_def Let_def)
  have l28: "length (PutUint32 ?l @ ?n) = 28"
    by simp
  have r1: "ReadFull (base r) 28 = (Inr (PutUint32 ?l @ ?n), (base r)\<lparr>inbuf := ?ct @ rest\<rparr>)"
    using f l28 by (intro ReadFull_append) simp_all
  have u: "unat ?l = length ?ct"
    using assms(3) by (simp add: unat_of_nat)
  have r2: "ReadFull ((base r)\<lparr>inbuf := ?ct @ rest\<rparr>) (length ?ct)
              = (Inr ?ct, (base r)\<lparr>inbuf := rest\<rparr>)"
    using ReadFull_append [of "(base r)\<lparr>inbuf := ?ct @ rest\<rparr>" ?ct rest "length ?ct"]
    by simp
  show ?thesis
    using assms(2,4)
    by (simp add: ClientAEAD_Read_def r1 Let_def Uint32_PutUint32 u r2 min_def)
qed


lemma Writes_ok:
  assumes "wfaults (base c) = []"
    and "\<forall>p\<in>set ps. \<forall>nonce. length (Seal (aead c) nonce p) \<le> 4294967295"
  shows "fst (Writes c ps) = map (\<lambda>p. (length p, None)) ps
         \<and> outbuf (base (snd (Writes c ps)))
             = outbuf (base c) @ aeadFrames (aead c) (encCtr c) ps"
  using assms
proof (induction ps arbitrary: c)
  case Nil
  then show ?case by simp
next
  case (Cons p ps)
  let ?c1 = "c\<lparr>encCtr := encCtr c + 1,
              base := (base c)\<lparr>outbuf := outbuf (base c) @ aeadFrame (aead c) (encCtr c) p\<rparr>\<rparr>"
  obtain ev where w: "ClientAEAD_Write c p = ((length p, None), ?c1, ev)"
    using Write_ok [of c p] Cons.prems by auto
  have "fst (Writes ?c1 ps) = map (\<lambda>p. (length p, None)) ps
         \<and> outbuf (base (snd (Writes ?c1 ps)))
             = outbuf (base ?c1) @ aeadFrames (aead ?c1) (encCtr ?c1) ps"
    using Cons.prems by (intro Cons.IH) auto
  then show ?case
    using w by (simp add: split_beta)
qed

lemma Reads_ok:
  assumes "inbuf (base r) = aeadFrames a ctr ps @ rest"
    and "\<forall>nonce p. Open (aead r) nonce (Seal a nonce p) = Inr p"
    and "\<forall>p\<in>set ps. \<forall>nonce. length (Seal a nonce p) \<le> 4294967295"
    and "list_all2 (\<lambda>n p. length p \<le> n) caps ps"
  shows "fst (Reads r caps) = map (\<lambda>p. (p, None)) ps"
  using assms
proof (induction ps arbitrary: r ctr caps)
  case Nil
  then show ?case by simp
next
  case (Cons p ps)
  from Cons.prems(4) obtain n ns where caps: "caps = n # ns" "length p \<le> n"
      "list_all2 (\<lambda>n p. length p \<le> n) ns ps"
    by (auto simp: list_all2_Cons2)
  let ?r1 = "r\<lparr>base := (base r)\<lparr>inbuf := aeadFrames a (ctr + 1) ps @ rest\<rparr>\<rparr>"
  have rd: "ClientAEAD_Read r n = ((p, None), ?r1)"
    using Cons.prems(1,2,3) caps(2)
    by (intro Read_frame [where a = a and ctr = ctr]) auto
  have "fst (Reads ?r1 ns) = map (\<lambda>p. (p, None)) ps"
    using Cons.prems(2,3) caps(3)
    by (intro Cons.IH [where ctr = "ctr + 1"]) auto
  then show ?case
    using rd caps(1) by (simp add: split_beta)
qed


lemma Writes_counter:
  "encCtr (snd (Writes c ps)) = encCtr c + word_of_nat (length ps) \<and> aead (snd (Writes c ps)) = aead c"
proof (induction ps arbitrary: c)
  case Nil
  then show ?case by simp
next
  case (Cons p ps)
  obtain r c1 ev where w: "ClientAEAD_Write c p = (r, c1, ev)"
    by (cases "ClientAEAD_Write c p") auto
  then have "encCtr c1 = encCtr c + 1" "aead c1 = aead c"
    using Write_counter by blast+
  then show ?case
    using w Cons.IH [of c1] by (simp add: split_beta ac_simps)
qed

lemma nonces_nth:
  assumes "k < length ps" "k < 2 ^ 64"
  shows "take 16 (nonces c ps ! k) = replicate 16 0 \<and> length (nonces c ps ! k) = 24
         \<and> Uint64 (drop 16 (nonces c ps ! k)) = encCtr c + word_of_nat k"
  using assms by (simp add: nonces_eq Uint64_PutUint64)

lemma length_toyTag: "length (toyTag key nonce) = 16"
  by (auto simp: toyTag_def min_def)

lemma toyAEAD_correct:
  "Open (toyAEAD key) nonce (Seal (toyAEAD key) nonce p) = Inr p
   \<and> length (Seal (toyAEAD key) nonce p) = length p + 16"
  by (simp add: toyAEAD_def length_toyTag)

text \<open>
  Claim C1, as amended. For any PSK and tunnel id for which \<open>Wrap\<close> gives a wrapper,
  with a cipher whose \<open>Open\<close> returns under the same nonce what \<open>Seal\<close> was given and
  whose ciphertext is 16 bytes longer than the plaintext: when a writer made by \<open>Wrap\<close>
  writes the plaintexts \<open>P1..Pn\<close>, each of at most \<open>2^32 - 17\<close> bytes, to a stream that
  takes every write, all writes succeed, and a reader made by \<open>Wrap\<close> from the same PSK
  and tunnel id that reads the concatenated output with buffers at least as long as the
  plaintexts returns \<open>P1..Pn\<close> in order. The nonce of write number \<open>k + 1\<close> (counting
  from 1) is 24 bytes, 16 zero bytes followed by \<open>k\<close> as a big-endian 64-bit unsigned
  integer, and the counter of the writer after \<open>k\<close> writes is \<open>k\<close>, for up to \<open>2^64\<close>
  writes.
\<close>

theorem aead_roundtrip:
  "Wrap lib psk bytes_writer tid = Sealed wr
   \<and> (\<forall>nonce p. Open (aead wr) nonce (Seal (aead wr) nonce p) = Inr p
                 \<and> length (Seal (aead wr) nonce p) = length p + 16)
   \<and> (\<forall>p\<in>set ps. length p + 16 \<le> 4294967295)
   \<and> list_all2 (\<lambda>n p. length p \<le> n) caps ps
   \<and> length ps \<le> 2 ^ 64
   \<longrightarrow> roundtrip lib psk tid ps caps
         = Some (map (\<lambda>p. (length p, None)) ps, map (\<lambda>p. (p, None)) ps)
       \<and> outbuf (base (snd (Writes wr ps))) = aeadFrames (aead wr) 0 ps
       \<and> (\<forall>k<length ps. take 16 (nonces wr ps ! k) = replicate 16 0
                          \<and> length (nonces wr ps ! k) = 24
                          \<and> unat (Uint64 (drop 16 (nonces wr ps ! k))) = k
                          \<and> unat (encCtr (snd (Writes wr (take k ps)))) = k)"
proof (intro impI)
  assume a: "Wrap lib psk bytes_writer tid = Sealed wr
   \<and> (\<forall>nonce p. Open (aead wr) nonce (Seal (aead wr) nonce p) = Inr p
                 \<and> length (Seal (aead wr) nonce p) = length p + 16)
   \<and> (\<forall>p\<in>set ps. length p + 16 \<le> 4294967295)
   \<and> list_all2 (\<lambda>n p. length p \<le> n) caps ps
   \<and> length ps \<le> 2 ^ 64"
  let ?key = "Sum256 lib (secret psk @ bytes_of tid)"
  from a have nx: "NewX lib ?key = Inr (aead wr)"
    and wr: "wr = \<lparr>base = bytes_writer, aead = aead wr, encCtr = 0\<rparr>"
    by (auto simp: Wrap_def Let_def split: sum.splits)
  have wr0: "wfaults (base wr) = []" "outbuf (base wr) = []" "encCtr wr = 0"
    by (subst wr, simp add: bytes_writer_def)+
  have sz: "\<forall>p\<in>set ps. \<forall>nonce. length (Seal (aead wr) nonce p) \<le> 4294967295"
    using a by simp
  have W: "fst (Writes wr ps) = map (\<lambda>p. (length p, None)) ps"
    "outbuf (base (snd (Writes wr ps))) = aeadFrames (aead wr) 0 ps"
    using Writes_ok [OF wr0(1) sz] wr0 by simp_all
  let ?rd = "\<lparr>base = bytes_reader (aeadFrames (aead wr) 0 ps), aead = aead wr, encCtr = 0\<rparr>"
  have R: "fst (Reads ?rd caps) = map (\<lambda>p. (p, None)) ps"
    using a sz
    by (intro Reads_ok [where a = "aead wr" and ctr = 0 and rest = "[]"])
      (auto simp: bytes_reader_def)
  have rt: "roundtrip lib psk tid ps caps
         = Some (map (\<lambda>p. (length p, None)) ps, map (\<lambda>p. (p, None)) ps)"
    using a W R nx
    by (simp add: roundtrip_def Wrap_def Let_def split_beta)
  have N: "\<forall>k<length ps. take 16 (nonces wr ps ! k) = replicate 16 0
                          \<and> length (nonces wr ps ! k) = 24
                          \<and> unat (Uint64 (drop 16 (nonces wr ps ! k))) = k
                          \<and> unat (encCtr (snd (Writes wr (take k ps)))) = k"
  proof (intro allI impI)
    fix k assume k: "k < length ps"
    with a have k64: "k < 2 ^ 64" by simp
    have "unat (word_of_nat k :: 64 word) = k"
      using k64 by (simp add: unat_of_nat)
    then show "take 16 (nonces wr ps ! k) = replicate 16 0
                          \<and> length (nonces wr ps ! k) = 24
                          \<and> unat (Uint64 (drop 16 (nonces wr ps ! k))) = k
                          \<and> unat (encCtr (snd (Writes wr (take k ps)))) = k"
      using nonces_nth [OF k k64, of wr] k wr0 by (simp add: Writes_counter min_def)
  qed
  from rt W(2) N show "roundtrip lib psk tid ps caps
         = Some (map (\<lambda>p. (length p, None)) ps, map (\<lambda>p. (p, None)) ps)
       \<and> outbuf (base (snd (Writes wr ps))) = aeadFrames (aead wr) 0 ps
       \<and> (\<forall>k<length ps. take 16 (nonces wr ps ! k) = replicate 16 0
                          \<and> length (nonces wr ps ! k) = 24
                          \<and> unat (Uint64 (drop 16 (nonces wr ps ! k))) = k
                          \<and> unat (encCtr (snd (Writes wr (take k ps)))) = k)"
    by blast
qed


theorem aead_roundtrip_witness:
  "roundtrip toyCrypto (NewClientPSK (bytes_of ''k'')) ''t1'' [[104, 105], [], [7]] [2, 0, 5]
     = Some ([(2, None), (0, None), (1, None)], [([104, 105], None), ([], None), ([7], None)])
   \<and> unat (Uint64 (drop 16 (nonces
         \<lparr>base = bytes_writer, aead = toyAEAD (take 32 (bytes_of ''kt1'' @ replicate 32 0)), encCtr = 0\<rparr>
         [[104, 105], [], [7]] ! 2))) = 2"
proof -
  let ?wr = "\<lparr>base = bytes_writer, aead = toyAEAD (take 32 (bytes_of ''kt1'' @ replicate 32 0)), encCtr = 0\<rparr>"
  have h: "Wrap toyCrypto (NewClientPSK (bytes_of ''k'')) bytes_writer ''t1'' = Sealed ?wr
   \<and> (\<forall>nonce p. Open (aead ?wr) nonce (Seal (aead ?wr) nonce p) = Inr p
                 \<and> length (Seal (aead ?wr) nonce p) = length p + 16)
   \<and> (\<forall>p\<in>set [[104, 105], [], [7]]. length (p :: byte list) + 16 \<le> 4294967295)
   \<and> list_all2 (\<lambda>n p. length p \<le> n) [2, 0, 5] [[104, 105], [], [7 :: byte]]
   \<and> length [[104, 105], [], [7 :: byte]] \<le> 2 ^ 64"
    by (simp add: Wrap_def toyCrypto_def NewClientPSK_def bytes_of_def toyAEAD_correct)
  note t = aead_roundtrip [where lib = toyCrypto and psk = "NewClientPSK (bytes_of ''k'')"
      and tid = "''t1''" and wr = ?wr and ps = "[[104, 105], [], [7]]" and caps = "[2, 0, 5]",
      THEN mp, OF h]
  from t have r: "roundtrip toyCrypto (NewClientPSK (bytes_of ''k'')) ''t1''
        [[104, 105], [], [7]] [2, 0, 5]
     = Some ([(2, None), (0, None), (1, None)], [([104, 105], None), ([], None), ([7], None)])"
    by (simp del: nonces.simps)
  from t have "\<forall>k<length [[104, 105], [], [7 :: byte]].
      unat (Uint64 (drop 16 (nonces ?wr [[104, 105], [], [7]] ! k))) = k"
    by blast
  then have n: "unat (Uint64 (drop 16 (nonces ?wr [[104, 105], [], [7]] ! 2))) = 2"
    by (simp del: nonces.simps)
  from r n show ?thesis
    by blast
qed

text \<open>
  The claim as stated fails in two places. For a reader whose buffer is shorter than
  the plaintext: a plaintext of two bytes read into a buffer of one byte gives the
  first byte with \<open>io.ErrShortBuffer\<close>, and the second byte is lost. And for the use of
  a nonce under a key: two wrappers made by \<open>Wrap\<close> from the same PSK and tunnel id over
  two streams hold the same cipher, and the first \<open>Write\<close> of each goes to \<open>Seal\<close> with
  the same nonce, the counter value 0.
\<close>

theorem aead_roundtrip_counterexample:
  "roundtrip toyCrypto (NewClientPSK (bytes_of ''k'')) ''t1'' [[104, 105]] [1]
     = Some ([(2, None)], [([104], Some ErrShortBuffer)])
   \<and> Wrap toyCrypto (NewClientPSK (bytes_of ''k'')) (bytes_reader [0]) ''t1''
       = Sealed \<lparr>base = bytes_reader [0],
                  aead = toyAEAD (take 32 (bytes_of ''kt1'' @ replicate 32 0)), encCtr = 0\<rparr>
   \<and> Wrap toyCrypto (NewClientPSK (bytes_of ''k'')) (bytes_reader [1]) ''t1''
       = Sealed \<lparr>base = bytes_reader [1],
                  aead = toyAEAD (take 32 (bytes_of ''kt1'' @ replicate 32 0)), encCtr = 0\<rparr>
   \<and> nonces \<lparr>base = bytes_reader [0],
               aead = toyAEAD (take 32 (bytes_of ''kt1'' @ replicate 32 0)), encCtr = 0\<rparr> [[104]]
       = [replicate 16 0 @ PutUint64 0]
   \<and> nonces \<lparr>base = bytes_reader [1],
               aead = toyAEAD (take 32 (bytes_of ''kt1'' @ replicate 32 0)), encCtr = 0\<rparr> [[105]]
       = [replicate 16 0 @ PutUint64 0]"
proof -
  have r: "roundtrip toyCrypto (NewClientPSK (bytes_of ''k'')) ''t1'' [[104, 105]] [1]
     = Some ([(2, None)], [([104], Some ErrShortBuffer)])"
    by (simp add: roundtrip_def Wrap_def toyCrypto_def NewClientPSK_def bytes_of_def
        ClientAEAD_Write_def ClientAEAD_Read_def ToUint32Size_def toUintSize_def MaxInt_def
        stream_Write_def bytes_writer_def bytes_reader_def ReadFull_def toyAEAD_def toyTag_def
        PutUint32_def PutUint64_def Uint32_def Let_def)
  have w: "Wrap toyCrypto (NewClientPSK (bytes_of ''k'')) s ''t1''
       = Sealed \<lparr>base = s,
                  aead = toyAEAD (take 32 (bytes_of ''kt1'' @ replicate 32 0)), encCtr = 0\<rparr>" for s
    by (simp add: Wrap_def toyCrypto_def NewClientPSK_def bytes_of_def)
  have n: "nonces \<lparr>base = s, aead = a, encCtr = 0\<rparr> [p] = [replicate 16 0 @ PutUint64 0]" for s a p
    using nonces_eq [of "\<lparr>base = s, aead = a, encCtr = 0\<rparr>" "[p]"] by simp
  from r w n show ?thesis
    by blast
qed


text \<open>
  The counter of one wrapper. Every call of \<open>Write\<close> leaves the counter one higher than
  it found it (in 64-bit arithmetic), whatever the outcome of the call: the size check
  or a write to the underlying stream may fail. The store to the counter is the first
  thing the call does, before the call of \<open>Seal\<close> and every write to the underlying
  stream. The later writes of the same wrapper, failed or not, do not use the nonce of
  the call (up to \<open>2^64\<close> writes, where the 64-bit counter wraps).
\<close>

lemma write_consumes_nonce:
  "(case ClientAEAD_Write c p of
      (r, c1, ev) \<Rightarrow>
        encCtr c1 = encCtr c + 1
        \<and> (\<exists>bs. ev = CtrStore (encCtr c + 1)
                      # SealCall (replicate 16 0 @ PutUint64 (encCtr c)) # map BaseWrite bs)
        \<and> (length ps < 2 ^ 64 \<longrightarrow>
             replicate 16 0 @ PutUint64 (encCtr c) \<notin> set (nonces c1 ps)))
   \<and> (length qs \<le> 2 ^ 64 \<longrightarrow> distinct (nonces c qs))"
proof -
  obtain r c1 ev where w: "ClientAEAD_Write c p = (r, c1, ev)"
    by (cases "ClientAEAD_Write c p") auto
  then have c1: "encCtr c1 = encCtr c + 1"
    and ev: "\<exists>bs. ev = CtrStore (encCtr c + 1)
                      # SealCall (replicate 16 0 @ PutUint64 (encCtr c)) # map BaseWrite bs"
    and n: "sealNonces ev = [replicate 16 0 @ PutUint64 (encCtr c)]"
    using Write_counter Write_nonce by blast+
  have fresh: "replicate 16 0 @ PutUint64 (encCtr c) \<notin> set (nonces c1 ps)"
    if "length ps < 2 ^ 64"
  proof -
    have "distinct (nonces c (p # ps))"
      using that by (intro nonces_distinct) simp
    then show ?thesis
      using w n by simp
  qed
  show ?thesis
    using w c1 ev fresh by (simp add: nonces_distinct)
qed

lemma write_consumes_nonce_example:
  "ClientAEAD_Write \<lparr>base = bytes_writer\<lparr>wfaults := [Some 3]\<rparr>, aead = toyAEAD [], encCtr = 5\<rparr> [1, 2]
     = ((0, Some (ErrorString ''write failed'')),
        \<lparr>base = bytes_writer\<lparr>outbuf := [0, 0, 0], wfaults := []\<rparr>, aead = toyAEAD [], encCtr = 6\<rparr>,
        [CtrStore 6, SealCall (replicate 16 0 @ PutUint64 5),
         BaseWrite (PutUint32 18 @ replicate 16 0 @ PutUint64 5)])
   \<and> replicate 16 0 @ PutUint64 5
       \<notin> set (nonces \<lparr>base = bytes_writer\<lparr>outbuf := [0, 0, 0], wfaults := []\<rparr>, aead = toyAEAD [], encCtr = 6\<rparr> [[1, 2]])
   \<and> distinct (nonces \<lparr>base = bytes_writer\<lparr>wfaults := [Some 3]\<rparr>, aead = toyAEAD [], encCtr = 5\<rparr> [[1, 2], [1, 2]])"
proof -
  let ?c = "\<lparr>base = bytes_writer\<lparr>wfaults := [Some 3]\<rparr>, aead = toyAEAD [], encCtr = 5\<rparr>"
  have e: "ClientAEAD_Write ?c [1, 2]
     = ((0, Some (ErrorString ''write failed'')),
        \<lparr>base = bytes_writer\<lparr>outbuf := [0, 0, 0], wfaults := []\<rparr>, aead = toyAEAD [], encCtr = 6\<rparr>,
        [CtrStore 6, SealCall (replicate 16 0 @ PutUint64 5),
         BaseWrite (PutUint32 18 @ replicate 16 0 @ PutUint64 5)])"
    by (simp add: ClientAEAD_Write_def Let_def toyAEAD_def length_toyTag ToUint32Size_def
        toUintSize_def MaxInt_def stream_Write_def bytes_writer_def PutUint32_def)
  from write_consumes_nonce [where c = ?c and p = "[1, 2]" and ps = "[[1, 2]]"
      and qs = "[[1, 2], [1, 2]]"]
  show ?thesis
    unfolding e by (simp del: nonces.simps)
qed

lemma Wrap_Sealed:
  assumes "Wrap lib psk s tid = Sealed w"
  shows "NewX lib (Sum256 lib (secret psk @ bytes_of tid)) = Inr (aead w)"
    and "base w = s" and "encCtr w = 0"
  using assms by (auto simp: Wrap_def Let_def split: sum.splits)

text \<open>
  Claim C10. The counter belongs to the wrapper, not to the key: every wrapper starts
  at 0, and the key is the digest of the PSK and the tunnel id. The data plane wraps
  each stream of a tunnel with \<open>WrapClientStream\<close> under the same tunnel id and settings
  (\<open>StartDataPlaneParallel\<close> for each of its \<open>n\<close> streams, \<open>StartDataPlaneServeListenReconnect\<close>
  for each accepted connection). Whenever two streams are wrapped so, the two wrappers
  hold the same cipher, made from the same key, and the first \<open>Write\<close> of each, whatever
  the plaintexts, seals with the same nonce: 16 zero bytes and the counter value 0.
  The nonce that the first wrapper consumed is used again under the same key.
\<close>

theorem nonce_reused_across_streams:
  "WrapClientStream lib sa tid enc = Sealed wa \<and> WrapClientStream lib sb tid enc = Sealed wb
   \<longrightarrow> NewX lib (Sum256 lib (bytes_of (PSK enc) @ bytes_of tid)) = Inr (aead wa)
       \<and> aead wb = aead wa
       \<and> encCtr wa = 0 \<and> encCtr wb = 0
       \<and> sealNonces (snd (snd (ClientAEAD_Write wa p))) = [replicate 16 0 @ PutUint64 0]
       \<and> sealNonces (snd (snd (ClientAEAD_Write wb q))) = [replicate 16 0 @ PutUint64 0]"
proof (intro impI)
  assume a: "WrapClientStream lib sa tid enc = Sealed wa
             \<and> WrapClientStream lib sb tid enc = Sealed wb"
  then have wa: "Wrap lib (NewClientPSK (bytes_of (PSK enc))) sa tid = Sealed wa"
    and wb: "Wrap lib (NewClientPSK (bytes_of (PSK enc))) sb tid = Sealed wb"
    by (auto simp: WrapClientStream_def Let_def split: if_splits)
  have ka: "NewX lib (Sum256 lib (bytes_of (PSK enc) @ bytes_of tid)) = Inr (aead wa)"
    using Wrap_Sealed(1) [OF wa] by (simp add: NewClientPSK_def)
  have kb: "NewX lib (Sum256 lib (bytes_of (PSK enc) @ bytes_of tid)) = Inr (aead wb)"
    using Wrap_Sealed(1) [OF wb] by (simp add: NewClientPSK_def)
  have ca: "encCtr wa = 0" and cb: "encCtr wb = 0"
    using Wrap_Sealed(3) [OF wa] Wrap_Sealed(3) [OF wb] by simp_all
  have na: "sealNonces (snd (snd (ClientAEAD_Write wa p))) = [replicate 16 0 @ PutUint64 0]"
    using Write_nonce [of wa p "fst (ClientAEAD_Write wa p)" "fst (snd (ClientAEAD_Write wa p))"
        "snd (snd (ClientAEAD_Write wa p))"] ca by simp
  have nb: "sealNonces (snd (snd (ClientAEAD_Write wb q))) = [replicate 16 0 @ PutUint64 0]"
    using Write_nonce [of wb q "fst (ClientAEAD_Write wb q)" "fst (snd (ClientAEAD_Write wb q))"
        "snd (snd (ClientAEAD_Write wb q))"] cb by simp
  from ka kb ca cb na nb
  show "NewX lib (Sum256 lib (bytes_of (PSK enc) @ bytes_of tid)) = Inr (aead wa)
       \<and> aead wb = aead wa
       \<and> encCtr wa = 0 \<and> encCtr wb = 0
       \<and> sealNonces (snd (snd (ClientAEAD_Write wa p))) = [replicate 16 0 @ PutUint64 0]
       \<and> sealNonces (snd (snd (ClientAEAD_Write wb q))) = [replicate 16 0 @ PutUint64 0]"
    by simp
qed

text \<open>
  Two streams of the tunnel \<open>t1\<close> under a PSK of 32 characters, as \<open>StartDataPlaneParallel\<close>
  with \<open>n = 2\<close> wraps them; the first writes are \<open>hello stream 0\<close> and \<open>hello stream 1\<close>,
  each with its line feed.
\<close>

theorem nonce_reused_across_streams_witness:
  "WrapClientStream toyCrypto (bytes_reader [0]) ''t1''
       \<lparr>Enabled = True, PSK = ''0123456789abcdef0123456789abcdef''\<rparr>
     = Sealed \<lparr>base = bytes_reader [0],
                aead = toyAEAD (bytes_of ''0123456789abcdef0123456789abcdef''), encCtr = 0\<rparr>
   \<and> WrapClientStream toyCrypto (bytes_reader [1]) ''t1''
       \<lparr>Enabled = True, PSK = ''0123456789abcdef0123456789abcdef''\<rparr>
     = Sealed \<lparr>base = bytes_reader [1],
                aead = toyAEAD (bytes_of ''0123456789abcdef0123456789abcdef''), encCtr = 0\<rparr>
   \<and> sealNonces (snd (snd (ClientAEAD_Write
         \<lparr>base = bytes_reader [0],
          aead = toyAEAD (bytes_of ''0123456789abcdef0123456789abcdef''), encCtr = 0\<rparr>
         (bytes_of (''hello stream 0'' @ [CHR 0x0A])))))
       = [replicate 16 0 @ PutUint64 0]
   \<and> sealNonces (snd (snd (ClientAEAD_Write
         \<lparr>base = bytes_reader [1],
          aead = toyAEAD (bytes_of ''0123456789abcdef0123456789abcdef''), encCtr = 0\<rparr>
         (bytes_of (''hello stream 1'' @ [CHR 0x0A])))))
       = [replicate 16 0 @ PutUint64 0]"
proof -
  let ?enc = "\<lparr>Enabled = True, PSK = ''0123456789abcdef0123456789abcdef''\<rparr>"
  let ?K = "toyAEAD (bytes_of ''0123456789abcdef0123456789abcdef'')"
  let ?wa = "\<lparr>base = bytes_reader [0], aead = ?K, encCtr = 0\<rparr>"
  let ?wb = "\<lparr>base = bytes_reader [1], aead = ?K, encCtr = 0\<rparr>"
  have w: "WrapClientStream toyCrypto s ''t1'' ?enc = Sealed \<lparr>base = s, aead = ?K, encCtr = 0\<rparr>" for s
    by (simp add: WrapClientStream_def Wrap_def toyCrypto_def NewClientPSK_def bytes_of_def)
  from nonce_reused_across_streams [where lib = toyCrypto and sa = "bytes_reader [0]"
      and sb = "bytes_reader [1]" and tid = "''t1''" and enc = ?enc and wa = ?wa and wb = ?wb
      and p = "bytes_of (''hello stream 0'' @ [CHR 0x0A])"
      and q = "bytes_of (''hello stream 1'' @ [CHR 0x0A])"]
  have "sealNonces (snd (snd (ClientAEAD_Write ?wa (bytes_of (''hello stream 0'' @ [CHR 0x0A])))))
          = [replicate 16 0 @ PutUint64 0]
        \<and> sealNonces (snd (snd (ClientAEAD_Write ?wb (bytes_of (''hello stream 1'' @ [CHR 0x0A])))))
          = [replicate 16 0 @ PutUint64 0]"
    unfolding w by blast
  with w show ?thesis
    by blast
qed


subsection \<open>The stream preface\<close>

lemma ReadString_line:
  assumes "delim \<notin> set line"
  shows "ReadString \<lparr>pending = line @ delim # rest, final = f\<rparr> delim
           = ((line @ [delim], None), \<lparr>pending = rest, final = f\<rparr>)"
proof -
  have "takeWhile (\<lambda>c. c \<noteq> delim) (line @ delim # rest) = line"
    using assms by (induction line) auto
  moreover have "dropWhile (\<lambda>c. c \<noteq> delim) (line @ delim # rest) = delim # rest"
    using assms by (induction line) auto
  ultimately show ?thesis
    by (simp add: ReadString_def)
qed

lemma ReadString_eof:
  assumes "delim \<notin> set s"
  shows "ReadString \<lparr>pending = s, final = f\<rparr> delim = ((s, Some f), \<lparr>pending = [], final = f\<rparr>)"
  using assms by (simp add: ReadString_def)

lemma spaceWidth_blank:
  assumes "blank c \<or> c = CHR 0x0A"
  shows "spaceWidth spaceRunes (c # xs) = 1 \<and> spaceWidth (map rev spaceRunes) (c # xs) = 1"
proof -
  from assms consider "c = CHR 0x09" | "c = CHR 0x0A" | "c = CHR 0x0B" | "c = CHR 0x0C"
    | "c = CHR 0x0D" | "c = CHR 0x20"
    unfolding blank_def by blast
  then show ?thesis
    by cases (simp_all add: spaceWidth_def spaceRunes_def)
qed

lemma spaceWidth_brace:
  "spaceWidth spaceRunes (CHR ''{'' # xs) = 0" "spaceWidth (map rev spaceRunes) (CHR ''}'' # xs) = 0"
  by (simp_all add: spaceWidth_def spaceRunes_def)

lemma trimRunes_blanks:
  assumes "list_all (\<lambda>c. blank c \<or> c = CHR 0x0A) ws"
  shows "trimRunes spaceRunes (ws @ xs) = trimRunes spaceRunes xs"
    "trimRunes (map rev spaceRunes) (ws @ xs) = trimRunes (map rev spaceRunes) xs"
  using assms by (induction ws) (simp_all add: spaceWidth_blank)

lemma TrimSpace_object:
  assumes "list_all (\<lambda>c. blank c \<or> c = CHR 0x0A) ws1" "list_all (\<lambda>c. blank c \<or> c = CHR 0x0A) ws2"
  shows "TrimSpace (ws1 @ CHR ''{'' # body @ CHR ''}'' # ws2) = CHR ''{'' # body @ [CHR ''}'']"
proof -
  have 1: "trimRunes spaceRunes (ws1 @ CHR ''{'' # body @ CHR ''}'' # ws2) = CHR ''{'' # body @ CHR ''}'' # ws2"
    using assms(1) by (simp add: trimRunes_blanks del: trimRunes.simps) (simp add: spaceWidth_brace)
  have r: "rev (CHR ''{'' # body @ CHR ''}'' # ws2) = rev ws2 @ CHR ''}'' # rev body @ [CHR ''{'']"
    by simp
  have "list_all (\<lambda>c. blank c \<or> c = CHR 0x0A) (rev ws2)"
    using assms(2) by (simp add: list_all_iff)
  then have 2: "trimRunes (map rev spaceRunes) (rev ws2 @ CHR ''}'' # rev body @ [CHR ''{''])
      = CHR ''}'' # rev body @ [CHR ''{'']"
    by (simp add: trimRunes_blanks del: trimRunes.simps) (simp add: spaceWidth_brace)
  show ?thesis
    unfolding TrimSpace_def 1 r 2 by simp
qed

lemma trimRunes_Nil: "trimRunes R [] = []"
  using spaceWidth_le [of R "[]"] by simp

lemma TrimSpace_blanks:
  assumes "list_all (\<lambda>c. blank c \<or> c = CHR 0x0A) ws"
  shows "TrimSpace ws = []"
proof -
  have "trimRunes spaceRunes (ws @ []) = trimRunes spaceRunes []"
    using assms by (rule trimRunes_blanks)
  then have "trimRunes spaceRunes ws = []"
    by (simp add: trimRunes_Nil del: trimRunes.simps)
  then show ?thesis
    by (simp add: TrimSpace_def trimRunes_Nil del: trimRunes.simps)
qed


lemma readStreamDestination_skip:
  assumes "CHR 0x0A \<notin> set line" "TrimSpace (line @ [CHR 0x0A]) = []"
  shows "readStreamDestination U \<lparr>pending = line @ CHR 0x0A # rest, final = f\<rparr>
           = readStreamDestination U \<lparr>pending = rest, final = f\<rparr>"
  using assms
  by (subst readStreamDestination.simps) (simp add: ReadString_line)

lemma readStreamDestination_line:
  assumes "CHR 0x0A \<notin> set line" "TrimSpace (line @ [CHR 0x0A]) \<noteq> []"
  shows "readStreamDestination U \<lparr>pending = line @ CHR 0x0A # rest, final = f\<rparr>
           = ((case U (TrimSpace (line @ [CHR 0x0A])) of
                 Inl err \<Rightarrow> ([], Some err)
               | Inr pre \<Rightarrow> (index pre ''dst'', None)),
              \<lparr>pending = rest, final = f\<rparr>)"
  using assms
  by (subst readStreamDestination.simps)
    (simp add: ReadString_line Let_def split: sum.splits)

lemma readStreamDestination_eof:
  assumes "CHR 0x0A \<notin> set s"
  shows "readStreamDestination U \<lparr>pending = s, final = f\<rparr>
           = (([], Some f), \<lparr>pending = [], final = f\<rparr>)"
  using assms
  by (subst readStreamDestination.simps) (simp add: ReadString_eof)




lemma blank_not_newline: "list_all blank ws \<Longrightarrow> CHR 0x0A \<notin> set ws"
  by (auto simp: list_all_iff blank_def)

lemma blank_weaken: "list_all blank ws \<Longrightarrow> list_all (\<lambda>c. blank c \<or> c = CHR 0x0A) ws"
  by (auto simp: list_all_iff)

lemma TrimSpace_object_line:
  assumes "list_all blank ws1" "list_all blank ws2"
  shows "TrimSpace ((ws1 @ CHR ''{'' # body @ CHR ''}'' # ws2) @ [CHR 0x0A]) = CHR ''{'' # body @ [CHR ''}'']"
  using TrimSpace_object [of ws1 "ws2 @ [CHR 0x0A]" body] assms
  by (simp add: blank_weaken)

lemma preface_object_line:
  assumes "list_all blank ws1" "list_all blank ws2" "CHR 0x0A \<notin> set body"
  shows "readStreamDestination U
           \<lparr>pending = ws1 @ CHR ''{'' # body @ CHR ''}'' # ws2 @ CHR 0x0A # rest, final = f\<rparr>
         = ((case U (CHR ''{'' # body @ [CHR ''}'']) of
               Inl err \<Rightarrow> ([], Some err)
             | Inr pre \<Rightarrow> (index pre ''dst'', None)),
            \<lparr>pending = rest, final = f\<rparr>)"
proof -
  let ?line = "ws1 @ CHR ''{'' # body @ CHR ''}'' # ws2"
  have nl: "CHR 0x0A \<notin> set ?line"
    using assms by (simp add: blank_not_newline)
  have t: "TrimSpace (?line @ [CHR 0x0A]) = CHR ''{'' # body @ [CHR ''}'']"
    using assms(1,2) by (rule TrimSpace_object_line)
  have "readStreamDestination U \<lparr>pending = ?line @ CHR 0x0A # rest, final = f\<rparr>
         = ((case U (TrimSpace (?line @ [CHR 0x0A])) of
               Inl err \<Rightarrow> ([], Some err)
             | Inr pre \<Rightarrow> (index pre ''dst'', None)),
            \<lparr>pending = rest, final = f\<rparr>)"
    using nl by (intro readStreamDestination_line) (simp_all only: t, simp_all)
  moreover have "TrimSpace (ws1 @ CHR ''{'' # body @ CHR ''}'' # ws2 @ [CHR 0x0A])
      = CHR ''{'' # body @ [CHR ''}'']"
    using t by simp
  ultimately show ?thesis
    by (simp)
qed

lemma preface_blank_line:
  assumes "list_all blank line"
  shows "readStreamDestination U \<lparr>pending = line @ CHR 0x0A # rest, final = f\<rparr>
           = readStreamDestination U \<lparr>pending = rest, final = f\<rparr>"
proof -
  have "list_all (\<lambda>c. blank c \<or> c = CHR 0x0A) (line @ [CHR 0x0A])"
    using assms by (simp add: blank_weaken)
  then have "TrimSpace (line @ [CHR 0x0A]) = []"
    by (rule TrimSpace_blanks)
  then show ?thesis
    using assms by (intro readStreamDestination_skip) (simp_all add: blank_not_newline)
qed





subsection \<open>The JSON codec on the preface\<close>

lemma dm64:
  fixes q x :: nat
  assumes "x < 64"
  shows "(q * 64 + x) div 64 = q" "(q * 64 + x) mod 64 = x"
  using assms by simp_all

lemma dm4096:
  fixes q x :: nat
  assumes "x < 4096"
  shows "(q * 4096 + x) div 4096 = q"
  using assms by simp

lemma enc2:
  fixes b0 b1 r :: nat
  assumes "194 \<le> b0" "b0 \<le> 223" "128 \<le> b1" "b1 \<le> 191" "r = b0 mod 32 * 64 + b1 mod 64"
  shows "128 \<le> r \<and> r \<le> 2047 \<and> 192 + r div 64 = b0 \<and> 128 + r mod 64 = b1"
proof -
  define x0 x1 where "x0 = b0 - 192" and "x1 = b1 - 128"
  then have b: "b0 = 192 + x0" "b1 = 128 + x1" and x: "2 \<le> x0" "x0 < 32" "x1 < 64"
    using assms(1-4) by simp_all
  have m0: "b0 mod 32 = x0"
    unfolding b using x mod_mult_self4 [of 32 6 x0] by simp
  have m1: "b1 mod 64 = x1"
    unfolding b using x mod_mult_self4 [of 64 2 x1] by simp
  have r: "r = x0 * 64 + x1"
    using assms(5) m0 m1 by simp
  have d: "r div 64 = x0" "r mod 64 = x1"
    unfolding r using x by simp_all
  show ?thesis
    unfolding d b unfolding r using x by simp
qed

lemma enc3:
  fixes b0 b1 b2 r :: nat
  assumes "224 \<le> b0" "b0 \<le> 239" "128 \<le> b1" "b1 \<le> 191" "128 \<le> b2" "b2 \<le> 191"
    "b0 = 224 \<longrightarrow> 160 \<le> b1" "b0 = 237 \<longrightarrow> b1 \<le> 159"
    "r = b0 mod 16 * 4096 + b1 mod 64 * 64 + b2 mod 64"
  shows "2048 \<le> r \<and> r \<le> 65535 \<and> \<not> (55296 \<le> r \<and> r \<le> 57343)
         \<and> 224 + r div 4096 = b0 \<and> 128 + r div 64 mod 64 = b1 \<and> 128 + r mod 64 = b2"
proof -
  define x0 x1 x2 where "x0 = b0 - 224" and "x1 = b1 - 128" and "x2 = b2 - 128"
  then have b: "b0 = 224 + x0" "b1 = 128 + x1" "b2 = 128 + x2"
    and x: "x0 < 16" "x1 < 64" "x2 < 64" "x0 = 0 \<longrightarrow> 32 \<le> x1" "x0 = 13 \<longrightarrow> x1 \<le> 31"
    using assms(1-8) by auto
  have m0: "b0 mod 16 = x0"
    unfolding b using x mod_mult_self4 [of 16 14 x0] by simp
  have m1: "b1 mod 64 = x1"
    unfolding b using x mod_mult_self4 [of 64 2 x1] by simp
  have m2: "b2 mod 64 = x2"
    unfolding b using x mod_mult_self4 [of 64 2 x2] by simp
  have r: "r = x0 * 4096 + (x1 * 64 + x2)"
    using assms(9) m0 m1 m2 by simp
  have lt: "x1 * 64 + x2 < 4096"
    using x by simp
  have d0: "r div 4096 = x0"
    unfolding r using lt by simp
  have e: "r = (x0 * 64 + x1) * 64 + x2"
    unfolding r by simp
  have d64: "r div 64 = x0 * 64 + x1" and d2: "r mod 64 = x2"
    unfolding e using x(3) by (rule dm64)+
  have d1: "r div 64 mod 64 = x1"
    unfolding d64 using x(2) by (rule dm64)
  have bounds: "2048 \<le> r \<and> r \<le> 65535 \<and> \<not> (55296 \<le> r \<and> r \<le> 57343)"
    unfolding r using x by (cases "x0 = 0"; cases "x0 = 13"; simp)
  show ?thesis
    using bounds unfolding d0 d1 d2 b by simp
qed

lemma enc4:
  fixes b0 b1 b2 b3 r :: nat
  assumes "240 \<le> b0" "b0 \<le> 244" "128 \<le> b1" "b1 \<le> 191" "128 \<le> b2" "b2 \<le> 191"
    "128 \<le> b3" "b3 \<le> 191"
    "b0 = 240 \<longrightarrow> 144 \<le> b1" "b0 = 244 \<longrightarrow> b1 \<le> 143"
    "r = b0 mod 8 * 262144 + b1 mod 64 * 4096 + b2 mod 64 * 64 + b3 mod 64"
  shows "65536 \<le> r \<and> r \<le> 1114111
         \<and> 240 + r div 262144 = b0 \<and> 128 + r div 4096 mod 64 = b1
         \<and> 128 + r div 64 mod 64 = b2 \<and> 128 + r mod 64 = b3"
proof -
  define x0 x1 x2 x3 where "x0 = b0 - 240" and "x1 = b1 - 128" and "x2 = b2 - 128"
    and "x3 = b3 - 128"
  then have b: "b0 = 240 + x0" "b1 = 128 + x1" "b2 = 128 + x2" "b3 = 128 + x3"
    and x: "x0 \<le> 4" "x1 < 64" "x2 < 64" "x3 < 64" "x0 = 0 \<longrightarrow> 16 \<le> x1" "x0 = 4 \<longrightarrow> x1 \<le> 15"
    using assms(1-10) by auto
  have m0: "b0 mod 8 = x0"
    unfolding b using x mod_mult_self4 [of 8 30 x0] by simp
  have m1: "b1 mod 64 = x1"
    unfolding b using x mod_mult_self4 [of 64 2 x1] by simp
  have m2: "b2 mod 64 = x2"
    unfolding b using x mod_mult_self4 [of 64 2 x2] by simp
  have m3: "b3 mod 64 = x3"
    unfolding b using x mod_mult_self4 [of 64 2 x3] by simp
  have r: "r = x0 * 262144 + (x1 * 4096 + (x2 * 64 + x3))"
    using assms(11) m0 m1 m2 m3 by simp
  have lt: "x1 * 4096 + (x2 * 64 + x3) < 262144" "x2 * 64 + x3 < 4096"
    using x by simp_all
  have d0: "r div 262144 = x0"
    unfolding r using lt by simp
  have e1: "r = (x0 * 64 + x1) * 4096 + (x2 * 64 + x3)"
    unfolding r by simp
  have d4096: "r div 4096 = x0 * 64 + x1"
    unfolding e1 using lt(2) by (rule dm4096)
  have d1: "r div 4096 mod 64 = x1"
    unfolding d4096 using x(2) by (rule dm64)
  have e2: "r = ((x0 * 64 + x1) * 64 + x2) * 64 + x3"
    unfolding r by simp
  have d64: "r div 64 = (x0 * 64 + x1) * 64 + x2" and d3: "r mod 64 = x3"
    unfolding e2 using x(4) by (rule dm64)+
  have d2: "r div 64 mod 64 = x2"
    unfolding d64 using x(3) by (rule dm64)
  have bounds: "65536 \<le> r \<and> r \<le> 1114111"
    unfolding r using x by (cases "x0 = 0"; cases "x0 = 4"; simp)
  show ?thesis
    using bounds unfolding d0 d1 d2 d3 b by simp
qed


lemma first_cases:
  assumes "first b = Some (n, lo, hi)"
  shows "(n = 2 \<and> 194 \<le> b \<and> b \<le> 223 \<and> lo = 128 \<and> hi = 191)
       \<or> (n = 3 \<and> 224 \<le> b \<and> b \<le> 239 \<and> 128 \<le> lo \<and> hi \<le> 191
            \<and> (b = 224 \<longrightarrow> lo = 160) \<and> (b = 237 \<longrightarrow> hi = 159))
       \<or> (n = 4 \<and> 240 \<le> b \<and> b \<le> 244 \<and> 128 \<le> lo \<and> hi \<le> 191
            \<and> (b = 240 \<longrightarrow> lo = 144) \<and> (b = 244 \<longrightarrow> hi = 143))"
  using assms by (auto simp: first_def split: if_splits)

lemma first_ge: "first b = Some (n, lo, hi) \<Longrightarrow> 128 \<le> b"
  by (auto simp: first_def split: if_splits)

lemma DecodeRune_ascii:
  "(of_char c0 :: nat) < 128 \<Longrightarrow> DecodeRune (c0 # p1) = (of_char c0, 1)"
  by (simp add: DecodeRune_def)

lemma DecodeRune_none:
  "\<not> (of_char c0 :: nat) < 128 \<Longrightarrow> first (of_char c0) = None
     \<Longrightarrow> DecodeRune (c0 # p1) = (RuneError, 1)"
  by (simp add: DecodeRune_def)

lemma DecodeRune_short:
  "\<not> (of_char c0 :: nat) < 128 \<Longrightarrow> first (of_char c0) = Some (n, lo, hi)
     \<Longrightarrow> length (c0 # p1) < n \<Longrightarrow> DecodeRune (c0 # p1) = (RuneError, 1)"
  by (simp add: DecodeRune_def)

lemma DecodeRune_two:
  "first (of_char c0) = Some (2, lo, hi) \<Longrightarrow>
     DecodeRune (c0 # c1 # rest)
       = (if (of_char c1 :: nat) < lo \<or> hi < of_char c1 then (RuneError, 1)
          else (of_char c0 mod 32 * 64 + of_char c1 mod 64, 2))"
  using first_ge [of "of_char c0" 2 lo hi] by (simp add: DecodeRune_def)

lemma DecodeRune_three:
  "first (of_char c0) = Some (3, lo, hi) \<Longrightarrow>
     DecodeRune (c0 # c1 # c2 # rest)
       = (if (of_char c1 :: nat) < lo \<or> hi < of_char c1 then (RuneError, 1)
          else if (of_char c2 :: nat) < 128 \<or> 191 < (of_char c2 :: nat) then (RuneError, 1)
          else (of_char c0 mod 16 * 4096 + of_char c1 mod 64 * 64 + of_char c2 mod 64, 3))"
  using first_ge [of "of_char c0" 3 lo hi] by (simp add: DecodeRune_def)

lemma DecodeRune_four:
  "first (of_char c0) = Some (4, lo, hi) \<Longrightarrow>
     DecodeRune (c0 # c1 # c2 # c3 # rest)
       = (if (of_char c1 :: nat) < lo \<or> hi < of_char c1 then (RuneError, 1)
          else if (of_char c2 :: nat) < 128 \<or> 191 < (of_char c2 :: nat) then (RuneError, 1)
          else if (of_char c3 :: nat) < 128 \<or> 191 < (of_char c3 :: nat) then (RuneError, 1)
          else (of_char c0 mod 8 * 262144 + of_char c1 mod 64 * 4096 + of_char c2 mod 64 * 64
                + of_char c3 mod 64, 4))"
  using first_ge [of "of_char c0" 4 lo hi] by (simp add: DecodeRune_def)

text \<open>
  The shape of a valid encoding of several bytes: the bytes that \<open>DecodeRune\<close>
  consumes are at least \<open>0x80\<close>, \<open>EncodeRune\<close> gives them back, and nothing after them
  matters.
\<close>

lemma DecodeRune_multi:
  assumes d: "DecodeRune (c0 # p1) = (r, n)" and v: "\<not> (r = RuneError \<and> n = 1)"
    and na: "\<not> (of_char c0 :: nat) < 128"
  shows "n \<le> length (c0 # p1) \<and> 2 \<le> n
         \<and> EncodeRune r = take n (c0 # p1)
         \<and> (\<forall>c\<in>set (take n (c0 # p1)). (128 :: nat) \<le> of_char c)
         \<and> (\<forall>ys. DecodeRune (take n (c0 # p1) @ ys) = (r, n))"
proof (cases "first (of_char c0)")
  case None
  with d v na show ?thesis
    by (simp add: DecodeRune_none)
next
  case (Some t)
  then obtain m lo hi where f: "first (of_char c0) = Some (m, lo, hi)"
    by (cases t) auto
  have len: "\<not> length (c0 # p1) < m"
    using d v DecodeRune_short [OF na f] by auto
  from first_cases [OF f] consider
    (two) "m = 2" "194 \<le> (of_char c0 :: nat)" "(of_char c0 :: nat) \<le> 223" "lo = 128" "hi = 191"
    | (three) "m = 3" "224 \<le> (of_char c0 :: nat)" "(of_char c0 :: nat) \<le> 239" "128 \<le> lo" "hi \<le> 191"
        "(of_char c0 :: nat) = 224 \<longrightarrow> lo = 160" "(of_char c0 :: nat) = 237 \<longrightarrow> hi = 159"
    | (four) "m = 4" "240 \<le> (of_char c0 :: nat)" "(of_char c0 :: nat) \<le> 244" "128 \<le> lo" "hi \<le> 191"
        "(of_char c0 :: nat) = 240 \<longrightarrow> lo = 144" "(of_char c0 :: nat) = 244 \<longrightarrow> hi = 143"
    by blast
  then show ?thesis
  proof cases
    case two
    from len two(1) obtain c1 rest where p: "p1 = c1 # rest"
      by (cases p1) auto
    note D = DecodeRune_two [OF f [unfolded two(1)]]
    from d v have b1: "\<not> ((of_char c1 :: nat) < lo \<or> hi < of_char c1)"
      and r: "r = of_char c0 mod 32 * 64 + of_char c1 mod 64" and n: "n = 2"
      unfolding p D by (auto split: if_splits)
    from b1 two have b1': "128 \<le> (of_char c1 :: nat)" "(of_char c1 :: nat) \<le> 191"
      by auto
    note e = enc2 [OF two(2,3) b1' r]
    have enc: "EncodeRune r = [c0, c1]"
    proof -
      from e have "\<not> r \<le> 0x7F" "r \<le> 0x7FF"
        by auto
      then have "EncodeRune r = [char_of (192 + r div 64), char_of (128 + r mod 64)]"
        by (simp add: EncodeRune_def)
      with e show ?thesis
        by simp
    qed
    have dec: "DecodeRune ([c0, c1] @ ys) = (r, n)" for ys
      using D [of c1 ys] b1 r n by simp
    show ?thesis
      using enc dec b1' two(2) unfolding p n by simp
  next
    case three
    from len three(1) obtain c1 c2 rest where p: "p1 = c1 # c2 # rest"
      by (cases p1; cases "tl p1") auto
    note D = DecodeRune_three [OF f [unfolded three(1)]]
    from d v have b1: "\<not> ((of_char c1 :: nat) < lo \<or> hi < of_char c1)"
      and b2: "\<not> ((of_char c2 :: nat) < 128 \<or> 191 < (of_char c2 :: nat))"
      and r: "r = of_char c0 mod 16 * 4096 + of_char c1 mod 64 * 64 + of_char c2 mod 64"
      and n: "n = 3"
      unfolding p D by (auto split: if_splits)
    from b1 three have b1': "128 \<le> (of_char c1 :: nat)" "(of_char c1 :: nat) \<le> 191"
      "(of_char c0 :: nat) = 224 \<longrightarrow> 160 \<le> (of_char c1 :: nat)"
      "(of_char c0 :: nat) = 237 \<longrightarrow> (of_char c1 :: nat) \<le> 159"
      by auto
    from b2 have b2': "128 \<le> (of_char c2 :: nat)" "(of_char c2 :: nat) \<le> 191"
      by auto
    note e = enc3 [OF three(2,3) b1'(1,2) b2' b1'(3,4) r]
    have enc: "EncodeRune r = [c0, c1, c2]"
    proof -
      from e have "\<not> r \<le> 0x7F" "\<not> r \<le> 0x7FF" "r \<le> 0xFFFF"
        "(0x10FFFF < r \<or> (0xD800 \<le> r \<and> r \<le> 0xDFFF)) = False"
        by auto
      then have "EncodeRune r = [char_of (224 + r div 4096), char_of (128 + r div 64 mod 64),
          char_of (128 + r mod 64)]"
        unfolding EncodeRune_def by (simp only: if_False if_True)
      with e show ?thesis
        by simp
    qed
    have dec: "DecodeRune ([c0, c1, c2] @ ys) = (r, n)" for ys
      using D [of c1 c2 ys] b1 b2 r n by simp
    show ?thesis
      using enc dec b1'(1) b2'(1) three(2) unfolding p n by simp
  next
    case four
    from len four(1) obtain c1 c2 c3 rest where p: "p1 = c1 # c2 # c3 # rest"
      by (cases p1; cases "tl p1"; cases "tl (tl p1)") auto
    note D = DecodeRune_four [OF f [unfolded four(1)]]
    from d v have b1: "\<not> ((of_char c1 :: nat) < lo \<or> hi < of_char c1)"
      and b2: "\<not> ((of_char c2 :: nat) < 128 \<or> 191 < (of_char c2 :: nat))"
      and b3: "\<not> ((of_char c3 :: nat) < 128 \<or> 191 < (of_char c3 :: nat))"
      and r: "r = of_char c0 mod 8 * 262144 + of_char c1 mod 64 * 4096 + of_char c2 mod 64 * 64
                + of_char c3 mod 64"
      and n: "n = 4"
      unfolding p D by (auto split: if_splits)
    from b1 four have b1': "128 \<le> (of_char c1 :: nat)" "(of_char c1 :: nat) \<le> 191"
      "(of_char c0 :: nat) = 240 \<longrightarrow> 144 \<le> (of_char c1 :: nat)"
      "(of_char c0 :: nat) = 244 \<longrightarrow> (of_char c1 :: nat) \<le> 143"
      by auto
    from b2 have b2': "128 \<le> (of_char c2 :: nat)" "(of_char c2 :: nat) \<le> 191"
      by auto
    from b3 have b3': "128 \<le> (of_char c3 :: nat)" "(of_char c3 :: nat) \<le> 191"
      by auto
    note e = enc4 [OF four(2,3) b1'(1,2) b2' b3' b1'(3,4) r]
    have enc: "EncodeRune r = [c0, c1, c2, c3]"
    proof -
      from e have "\<not> r \<le> 0x7F" "\<not> r \<le> 0x7FF" "\<not> r \<le> 0xFFFF"
        "(0x10FFFF < r \<or> (0xD800 \<le> r \<and> r \<le> 0xDFFF)) = False"
        by auto
      then have "EncodeRune r = [char_of (240 + r div 262144), char_of (128 + r div 4096 mod 64),
          char_of (128 + r div 64 mod 64), char_of (128 + r mod 64)]"
        unfolding EncodeRune_def by (simp only: if_False if_True)
      with e show ?thesis
        by simp
    qed
    have dec: "DecodeRune ([c0, c1, c2, c3] @ ys) = (r, n)" for ys
      using D [of c1 c2 c3 ys] b1 b2 b3 r n by simp
    show ?thesis
      using enc dec b1'(1) b2'(1) b3'(1) four(2) unfolding p n by simp
  qed
qed

lemma hexValue_hex: "d < 16 \<Longrightarrow> hexValue (hex ! d) = Some d"
proof -
  assume "d < 16"
  then have "d = 0 \<or> d = 1 \<or> d = 2 \<or> d = 3 \<or> d = 4 \<or> d = 5 \<or> d = 6 \<or> d = 7
    \<or> d = 8 \<or> d = 9 \<or> d = 10 \<or> d = 11 \<or> d = 12 \<or> d = 13 \<or> d = 14 \<or> d = 15"
    by presburger
  then show ?thesis
    by (elim disjE) (simp_all add: hex_def hexValue_def)
qed

lemma unquoteStep_safe:
  "htmlSafeSet (of_char c) \<Longrightarrow> unquoteStep (c # post) = Some ([c], 1)"
  by (auto simp: unquoteStep_def htmlSafeSet_def)

lemma getu4_00:
  assumes "b < 128"
  shows "getu4 (CHR 0x5C # CHR ''u'' # CHR ''0'' # CHR ''0'' # hex ! (b div 16) # hex ! (b mod 16) # post)
           = Some b"
proof -
  have "b div 16 < 16" "b mod 16 < 16"
    using assms by simp_all
  then have h: "hexValue (hex ! (b div 16)) = Some (b div 16)"
    "hexValue (hex ! (b mod 16)) = Some (b mod 16)"
    by (simp_all add: hexValue_hex)
  have z: "hexValue (CHR ''0'') = Some 0"
    by (simp add: hexValue_def)
  show ?thesis
    by (simp add: getu4_def h z)
qed

lemma unquoteStep_escape:
  assumes "(of_char c :: nat) < 128" "\<not> htmlSafeSet (of_char c)"
  shows "unquoteStep (escapeByte c @ post) = Some ([c], length (escapeByte c))"
proof -
  consider "c = CHR 0x5C" | "c = CHR 0x22" | "c = CHR 0x08" | "c = CHR 0x0C" | "c = CHR 0x0A"
    | "c = CHR 0x0D" | "c = CHR 0x09"
    | "c \<noteq> CHR 0x5C" "c \<noteq> CHR 0x22" "c \<noteq> CHR 0x08" "c \<noteq> CHR 0x0C" "c \<noteq> CHR 0x0A"
      "c \<noteq> CHR 0x0D" "c \<noteq> CHR 0x09"
    by blast
  then show ?thesis
  proof cases
    case 8
    then have e: "escapeByte c = [CHR 0x5C, CHR ''u'', CHR ''0'', CHR ''0'',
        hex ! (of_char c div 16), hex ! (of_char c mod 16)]"
      by (simp add: escapeByte_def)
    have s: "\<not> IsSurrogate (of_char c)"
      using assms(1) by (simp add: IsSurrogate_def)
    have r: "EncodeRune (of_char c) = [c]"
      using assms(1) by (simp add: EncodeRune_def)
    show ?thesis
      unfolding e using getu4_00 [OF assms(1), of post] s r
      by (simp add: unquoteStep_def)
  qed (simp_all add: escapeByte_def unquoteStep_def simpleEscape_def)
qed

lemma escapeByte_hd: "escapeByte c \<noteq> [] \<and> hd (escapeByte c) = CHR 0x5C"
  by (simp add: escapeByte_def)

lemma char_of_EF_BF_BD:
  "char_of (239 :: nat) = CHR 0xEF" "char_of (191 :: nat) = CHR 0xBF" "char_of (189 :: nat) = CHR 0xBD"
  by code_simp+

lemma EncodeRune_RuneError: "EncodeRune 0xFFFD = [CHR 0xEF, CHR 0xBF, CHR 0xBD]"
  by (simp add: EncodeRune_def char_of_EF_BF_BD)

lemma unquoteStep_fffd:
  "unquoteStep (CHR 0x5C # CHR ''u'' # CHR ''f'' # CHR ''f'' # CHR ''f'' # CHR ''d'' # post)
     = Some ([CHR 0xEF, CHR 0xBF, CHR 0xBD], 6)"
  by (simp add: unquoteStep_def getu4_def hexValue_def IsSurrogate_def EncodeRune_RuneError)

lemma unquoteStep_2028:
  "unquoteStep (CHR 0x5C # CHR ''u'' # CHR ''2'' # CHR ''0'' # CHR ''2'' # hex ! (0x2028 mod 16) # post)
     = Some (EncodeRune 0x2028, 6)"
  by (simp add: unquoteStep_def getu4_def hexValue_def IsSurrogate_def hex_def)

lemma unquoteStep_2029:
  "unquoteStep (CHR 0x5C # CHR ''u'' # CHR ''2'' # CHR ''0'' # CHR ''2'' # hex ! (0x2029 mod 16) # post)
     = Some (EncodeRune 0x2029, 6)"
  by (simp add: unquoteStep_def getu4_def hexValue_def IsSurrogate_def hex_def)

lemma unquoteStep_multi:
  assumes "\<not> (of_char c :: nat) < 128" "DecodeRune (c # p @ post) = (r, n)"
  shows "unquoteStep (c # p @ post) = Some (EncodeRune r, n)"
proof -
  have "c \<noteq> CHR 0x5C" "c \<noteq> CHR 0x22"
    using assms(1) by auto
  then show ?thesis
    using assms by (simp add: unquoteStep_def)
qed

lemma unquoteRest_step:
  assumes "unquoteStep (x @ post) = Some (out, length x)" "x \<noteq> []" "hd x \<noteq> CHR 0x22"
    and "unquoteRest post = Some (v, rest)"
  shows "unquoteRest (x @ post) = Some (out @ v, rest)"
proof -
  from assms(2) obtain c cs where x: "x = c # cs"
    by (cases x) auto
  show ?thesis
    using assms unfolding x by (subst unquoteRest.simps) simp
qed

lemma unquoteRest_quote: "unquoteRest (CHR 0x22 # rest) = Some ([], rest)"
  by (subst unquoteRest.simps) simp

lemma DecodeRune_take4: "DecodeRune (take 4 p) = DecodeRune p"
proof (cases p)
  case Nil
  then show ?thesis
    by simp
next
  case (Cons c0 p1)
  show ?thesis
  proof (cases "(of_char c0 :: nat) < 128")
    case True
    then show ?thesis
      unfolding Cons by (simp add: DecodeRune_ascii)
  next
    case na: False
    show ?thesis
    proof (cases "first (of_char c0)")
      case None
      with na show ?thesis
        unfolding Cons by (simp add: DecodeRune_none)
    next
      case (Some t)
      then obtain m lo hi where f: "first (of_char c0) = Some (m, lo, hi)"
        by (cases t) auto
      from first_cases [OF f] have m: "m = 2 \<or> m = 3 \<or> m = 4"
        by blast
      show ?thesis
      proof (cases "length (c0 # p1) < m")
        case True
        then have "length (c0 # take 3 p1) < m"
          by simp
        with True na f show ?thesis
          unfolding Cons by (simp add: DecodeRune_short del: length_Cons)
      next
        case False
        from m show ?thesis
        proof (elim disjE)
          assume m2: "m = 2"
          with False obtain c1 rest where p: "p1 = c1 # rest"
            by (cases p1) auto
          show ?thesis
            unfolding Cons p using DecodeRune_two [OF f [unfolded m2]] by simp
        next
          assume m3: "m = 3"
          with False obtain c1 c2 rest where p: "p1 = c1 # c2 # rest"
            by (cases p1; cases "tl p1") auto
          show ?thesis
            unfolding Cons p using DecodeRune_three [OF f [unfolded m3]] by simp
        next
          assume m4: "m = 4"
          with False obtain c1 c2 c3 rest where p: "p1 = c1 # c2 # c3 # rest"
            by (cases p1; cases "tl p1"; cases "tl (tl p1)") auto
          show ?thesis
            unfolding Cons p using DecodeRune_four [OF f [unfolded m4]] by simp
        qed
      qed
    qed
  qed
qed

lemma appendString_Nil: "appendString [] = []"
  by (subst appendString.simps) simp

lemma coerceUTF8_Nil: "coerceUTF8 [] = []"
  by (subst coerceUTF8.simps) simp

lemma appendString_roundtrip:
  "unquoteRest (appendString s @ CHR 0x22 # rest) = Some (coerceUTF8 s, rest)"
proof (induction "length s" arbitrary: s rule: less_induct)
  case less
  show ?case
  proof (cases s)
    case Nil
    then show ?thesis
      by (simp add: appendString_Nil coerceUTF8_Nil unquoteRest_quote)
  next
    case (Cons c cs)
    show ?thesis
    proof (cases "(of_char c :: nat) < 128")
      case asc: True
      have dr: "DecodeRune (take 4 s) = (of_char c, 1)"
        unfolding Cons using asc by (simp add: DecodeRune_ascii)
      have ne: "(of_char c :: nat) \<noteq> RuneError"
        using asc by (simp add: RuneError_def)
      have co: "coerceUTF8 s = [c] @ coerceUTF8 cs"
        by (subst coerceUTF8.simps) (simp add: dr ne, simp add: Cons)
      have IH: "unquoteRest (appendString cs @ CHR 0x22 # rest) = Some (coerceUTF8 cs, rest)"
        using less [of cs] Cons by simp
      show ?thesis
      proof (cases "htmlSafeSet (of_char c)")
        case True
        have ap: "appendString s = [c] @ appendString cs"
          by (subst appendString.simps) (simp add: Cons asc True)
        have q: "c \<noteq> CHR 0x22"
          using True by (auto simp: htmlSafeSet_def)
        from unquoteRest_step [of "[c]" "appendString cs @ CHR 0x22 # rest" "[c]", OF _ _ _ IH]
          unquoteStep_safe [OF True] q
        show ?thesis
          unfolding ap co by simp
      next
        case False
        have ap: "appendString s = escapeByte c @ appendString cs"
          by (subst appendString.simps) (simp add: Cons asc False)
        from unquoteRest_step [of "escapeByte c" "appendString cs @ CHR 0x22 # rest" "[c]", OF _ _ _ IH]
          unquoteStep_escape [OF asc False] escapeByte_hd [of c]
        show ?thesis
          unfolding ap co by simp
      qed
    next
      case na: False
      obtain r n where d: "DecodeRune (take 4 s) = (r, n)"
        by (cases "DecodeRune (take 4 s)") auto
      have d': "DecodeRune (c # take 3 cs) = (r, n)"
        using d unfolding Cons by simp
      have q: "c \<noteq> CHR 0x22"
        using na by auto
      show ?thesis
      proof (cases "r = RuneError \<and> n = 1")
        case True
        have ap: "appendString s
            = [CHR 0x5C, CHR ''u'', CHR ''f'', CHR ''f'', CHR ''f'', CHR ''d''] @ appendString cs"
          by (subst appendString.simps) (simp add: Cons na d' True)
        have co: "coerceUTF8 s = [CHR 0xEF, CHR 0xBF, CHR 0xBD] @ coerceUTF8 cs"
          by (subst coerceUTF8.simps) (simp add: d True, simp add: Cons)
        have IH: "unquoteRest (appendString cs @ CHR 0x22 # rest) = Some (coerceUTF8 cs, rest)"
          using less [of cs] Cons by simp
        from unquoteRest_step [of "[CHR 0x5C, CHR ''u'', CHR ''f'', CHR ''f'', CHR ''f'', CHR ''d'']"
            "appendString cs @ CHR 0x22 # rest" "[CHR 0xEF, CHR 0xBF, CHR 0xBD]", OF _ _ _ IH]
          unquoteStep_fffd [of "appendString cs @ CHR 0x22 # rest"]
        show ?thesis
          unfolding ap co by simp
      next
        case v: False
        note M = DecodeRune_multi [OF d' v na]
        from M have n: "n \<le> length (c # take 3 cs)" "2 \<le> n"
          and enc: "EncodeRune r = take n (c # take 3 cs)"
          and dec: "\<And>ys. DecodeRune (take n (c # take 3 cs) @ ys) = (r, n)"
          by blast+
        have n4: "n \<le> 4" "n \<le> length s"
          using n(1) unfolding Cons by simp_all
        have tk: "take n (c # take 3 cs) = take n s"
          using n4(1) unfolding Cons by (cases n) (simp_all add: min_def)
        have len: "length (take n s) = n"
          using n4(2) by simp
        have hd: "take n s \<noteq> []" "hd (take n s) = c"
          using n(2) unfolding Cons by (cases n; simp)+
        have co: "coerceUTF8 s = take n s @ coerceUTF8 (drop n s)"
          using v by (subst coerceUTF8.simps) (auto simp: d' Cons)
        have IH: "unquoteRest (appendString (drop n s) @ CHR 0x22 # rest)
            = Some (coerceUTF8 (drop n s), rest)"
          using less [of "drop n s"] n(2) Cons by simp
        show ?thesis
        proof (cases "r = 0x2028 \<or> r = 0x2029")
          case True
          have ap: "appendString s
              = [CHR 0x5C, CHR ''u'', CHR ''2'', CHR ''0'', CHR ''2'', hex ! (r mod 16)]
                @ appendString (drop n s)"
            using v True by (subst appendString.simps) (auto simp: Cons na d')
          have st: "unquoteStep ([CHR 0x5C, CHR ''u'', CHR ''2'', CHR ''0'', CHR ''2'', hex ! (r mod 16)]
              @ appendString (drop n s) @ CHR 0x22 # rest) = Some (take n s, 6)"
            using True unquoteStep_2028 [of "appendString (drop n s) @ CHR 0x22 # rest"]
              unquoteStep_2029 [of "appendString (drop n s) @ CHR 0x22 # rest"] enc tk
            by auto
          from unquoteRest_step [of "[CHR 0x5C, CHR ''u'', CHR ''2'', CHR ''0'', CHR ''2'', hex ! (r mod 16)]"
              "appendString (drop n s) @ CHR 0x22 # rest" "take n s", OF _ _ _ IH] st
          show ?thesis
            unfolding ap co by simp
        next
          case False
          have ap: "appendString s = take n s @ appendString (drop n s)"
            using v False by (subst appendString.simps) (auto simp: Cons na d')
          obtain p where p: "take n s = c # p"
            using hd by (cases "take n s") auto
          have "DecodeRune (c # p @ appendString (drop n s) @ CHR 0x22 # rest) = (r, n)"
            using dec [of "appendString (drop n s) @ CHR 0x22 # rest"] unfolding tk p by simp
          from unquoteStep_multi [OF na this]
          have st: "unquoteStep (take n s @ appendString (drop n s) @ CHR 0x22 # rest)
              = Some (take n s, length (take n s))"
            unfolding len enc tk unfolding p by simp
          from unquoteRest_step [of "take n s" "appendString (drop n s) @ CHR 0x22 # rest" "take n s",
              OF st hd(1) _ IH] hd(2) q
          show ?thesis
            unfolding ap co by simp
        qed
      qed
    qed
  qed
qed

lemma ValidString_coerceUTF8: "ValidString s \<Longrightarrow> coerceUTF8 s = s"
proof (induction "length s" arbitrary: s rule: less_induct)
  case less
  show ?case
  proof (cases "s = []")
    case True
    then show ?thesis
      by (simp add: coerceUTF8_Nil)
  next
    case False
    from less.prems False have v: "DecodeRune s \<noteq> (RuneError, 1)"
      and r: "ValidString (drop (snd (DecodeRune s)) s)"
      by (subst (asm) ValidString.simps, simp split: if_splits)+
    have "1 \<le> snd (DecodeRune s)"
      using DecodeRune_size [OF False] by simp
    then have "length (drop (snd (DecodeRune s)) s) < length s"
      using False by (cases s) auto
    from less.hyps [OF this r] show ?thesis
      using v False by (subst coerceUTF8.simps) (simp add: DecodeRune_take4)
  qed
qed

lemma coerceUTF8_ascii:
  "\<forall>c\<in>set (coerceUTF8 s). (of_char c :: nat) < 128 \<Longrightarrow> coerceUTF8 s = s"
proof (induction "length s" arbitrary: s rule: less_induct)
  case less
  show ?case
  proof (cases "s = []")
    case True
    then show ?thesis
      by (simp add: coerceUTF8_Nil)
  next
    case False
    show ?thesis
    proof (cases "DecodeRune (take 4 s) = (RuneError, 1)")
      case True
      with False have "coerceUTF8 s = [CHR 0xEF, CHR 0xBF, CHR 0xBD] @ coerceUTF8 (drop 1 s)"
        by (subst coerceUTF8.simps) simp
      with less.prems have "(of_char (CHR 0xEF) :: nat) < 128"
        by simp
      then show ?thesis
        by simp
    next
      case v: False
      let ?n = "snd (DecodeRune (take 4 s))"
      from v False have co: "coerceUTF8 s = take ?n s @ coerceUTF8 (drop ?n s)"
        by (subst coerceUTF8.simps) simp
      have "1 \<le> ?n"
        using DecodeRune_size [of "take 4 s"] False by simp
      then have "length (drop ?n s) < length s"
        using False by (cases s) auto
      moreover have "\<forall>c\<in>set (coerceUTF8 (drop ?n s)). (of_char c :: nat) < 128"
        using less.prems unfolding co by simp
      ultimately have "coerceUTF8 (drop ?n s) = drop ?n s"
        by (rule less.hyps)
      then show ?thesis
        unfolding co by simp
    qed
  qed
qed

lemma coerceUTF8_dst: "coerceUTF8 k = ''dst'' \<Longrightarrow> k = ''dst''"
proof -
  assume a: "coerceUTF8 k = ''dst''"
  then have "\<forall>c\<in>set (coerceUTF8 k). (of_char c :: nat) < 128"
    by simp
  then have "coerceUTF8 k = k"
    by (rule coerceUTF8_ascii)
  with a show ?thesis
    by simp
qed

lemma hex_not_newline: "d < 16 \<Longrightarrow> hex ! d \<noteq> CHR 0x0A"
proof -
  assume "d < 16"
  then have "d < length hex"
    by (simp add: hex_def)
  then have "hex ! d \<in> set hex"
    by (rule nth_mem)
  moreover have "CHR 0x0A \<notin> set hex"
    by (simp add: hex_def)
  ultimately show ?thesis
    by metis
qed

lemma escapeByte_no_newline:
  assumes "(of_char c :: nat) < 128"
  shows "CHR 0x0A \<notin> set (escapeByte c)"
proof -
  have "(of_char c :: nat) div 16 < 16" "(of_char c :: nat) mod 16 < 16"
    using assms by simp_all
  then have "hex ! (of_char c div 16) \<noteq> CHR 0x0A" "hex ! (of_char c mod 16) \<noteq> CHR 0x0A"
    by (simp_all add: hex_not_newline)
  then show ?thesis
    by (auto simp: escapeByte_def)
qed

lemma appendString_no_newline: "CHR 0x0A \<notin> set (appendString s)"
proof (induction "length s" arbitrary: s rule: less_induct)
  case less
  show ?case
  proof (cases s)
    case Nil
    then show ?thesis
      by (simp add: appendString_Nil)
  next
    case (Cons c cs)
    have IH: "CHR 0x0A \<notin> set (appendString (drop n s))" if "0 < n" for n
      using less [of "drop n s"] that Cons by simp
    from IH [of 1] have IH1: "CHR 0x0A \<notin> set (appendString cs)"
      using Cons by simp
    show ?thesis
    proof (cases "(of_char c :: nat) < 128")
      case asc: True
      show ?thesis
      proof (cases "htmlSafeSet (of_char c)")
        case True
        have ap: "appendString s = [c] @ appendString cs"
          by (subst appendString.simps) (simp add: Cons asc True)
        have "c \<noteq> CHR 0x0A"
          using True by (auto simp: htmlSafeSet_def)
        with IH1 show ?thesis
          unfolding ap by simp
      next
        case False
        have ap: "appendString s = escapeByte c @ appendString cs"
          by (subst appendString.simps) (simp add: Cons asc False)
        from IH1 escapeByte_no_newline [OF asc] show ?thesis
          unfolding ap by simp
      qed
    next
      case na: False
      obtain r n where d': "DecodeRune (c # take 3 cs) = (r, n)"
        by (cases "DecodeRune (c # take 3 cs)") auto
      have pos: "0 < n"
        using DecodeRune_pos [OF d' [symmetric]] .
      show ?thesis
      proof (cases "r = RuneError \<and> n = 1")
        case True
        have ap: "appendString s
            = [CHR 0x5C, CHR ''u'', CHR ''f'', CHR ''f'', CHR ''f'', CHR ''d''] @ appendString cs"
          by (subst appendString.simps) (simp add: Cons na d' True)
        from IH1 show ?thesis
          unfolding ap by simp
      next
        case v: False
        note M = DecodeRune_multi [OF d' v na]
        from M have n: "n \<le> length (c # take 3 cs)"
          and hi: "\<forall>x\<in>set (take n (c # take 3 cs)). (128 :: nat) \<le> of_char x"
          by blast+
        have n4: "n \<le> 4"
          using n by simp
        have tk: "take n (c # take 3 cs) = take n s"
          using n4 unfolding Cons by (cases n) (simp_all add: min_def)
        have nl: "CHR 0x0A \<notin> set (take n s)"
          using hi unfolding tk by auto
        show ?thesis
        proof (cases "r = 0x2028 \<or> r = 0x2029")
          case True
          have ap: "appendString s
              = [CHR 0x5C, CHR ''u'', CHR ''2'', CHR ''0'', CHR ''2'', hex ! (r mod 16)]
                @ appendString (drop n s)"
            using v True by (subst appendString.simps) (auto simp: Cons na d')
          from IH [OF pos] hex_not_newline [of "r mod 16"] show ?thesis
            unfolding ap by simp
        next
          case False
          have ap: "appendString s = take n s @ appendString (drop n s)"
            using v False by (subst appendString.simps) (auto simp: Cons na d')
          from IH [OF pos] nl show ?thesis
            unfolding ap by simp
        qed
      qed
    qed
  qed
qed

lemma skipSpace_Cons: "\<not> isSpace c \<Longrightarrow> skipSpace (c # s) = c # s"
  by (simp add: skipSpace_def)

lemma skipSpace_Nil: "skipSpace [] = []"
  by (simp add: skipSpace_def)

lemma not_isSpace: "\<not> isSpace (CHR 0x22)" "\<not> isSpace (CHR '':'')" "\<not> isSpace (CHR '','')"
  "\<not> isSpace (CHR ''}'')" "\<not> isSpace (CHR ''{'')"
  by (simp_all add: isSpace_def)

lemma objectMembers_member:
  assumes "\<not> isSpace e"
  shows "objectMembers (quoteString k @ '':'' @ quoteString v @ e # post) acc
           = (if e = CHR '','' then objectMembers (skipSpace post) ((coerceUTF8 k, coerceUTF8 v) # acc)
              else if e = CHR ''}'' then Some ((coerceUTF8 k, coerceUTF8 v) # acc, post)
              else None)"
proof -
  have k: "unquoteRest (appendString k @ CHR 0x22 # CHR '':'' # CHR 0x22 # appendString v @ CHR 0x22 # e # post)
      = Some (coerceUTF8 k, CHR '':'' # CHR 0x22 # appendString v @ CHR 0x22 # e # post)"
    by (rule appendString_roundtrip)
  have v: "unquoteRest (appendString v @ CHR 0x22 # e # post) = Some (coerceUTF8 v, e # post)"
    by (rule appendString_roundtrip)
  have s: "stringOrNull (CHR 0x22 # appendString v @ CHR 0x22 # e # post) = Some (coerceUTF8 v, e # post)"
    by (simp add: stringOrNull_def v)
  show ?thesis
    by (subst objectMembers.simps)
       (simp add: quoteString_def k s skipSpace_Cons not_isSpace assms)
qed

lemma encodeMembers_hd: "kvs \<noteq> [] \<Longrightarrow> \<exists>t. encodeMembers kvs = CHR 0x22 # t"
  by (induction kvs rule: encodeMembers.induct) (simp_all add: quoteString_def)

lemma objectMembers_encode:
  "kvs \<noteq> [] \<Longrightarrow>
     objectMembers (encodeMembers kvs @ CHR ''}'' # rest) acc
       = Some (rev (map (\<lambda>(k, v). (coerceUTF8 k, coerceUTF8 v)) kvs) @ acc, rest)"
proof (induction kvs arbitrary: acc rule: encodeMembers.induct)
  case 1
  then show ?case
    by simp
next
  case (2 k v)
  show ?case
    using objectMembers_member [of "CHR ''}''" k v rest acc] by (simp add: not_isSpace)
next
  case (3 k v kv kvs)
  obtain t where t: "encodeMembers (kv # kvs) = CHR 0x22 # t"
    using encodeMembers_hd [of "kv # kvs"] by auto
  have sk: "skipSpace (encodeMembers (kv # kvs) @ CHR ''}'' # rest)
      = encodeMembers (kv # kvs) @ CHR ''}'' # rest"
    unfolding t by (simp add: skipSpace_Cons not_isSpace)
  have "objectMembers (encodeMembers ((k, v) # kv # kvs) @ CHR ''}'' # rest) acc
      = objectMembers (encodeMembers (kv # kvs) @ CHR ''}'' # rest)
          ((coerceUTF8 k, coerceUTF8 v) # acc)"
    using objectMembers_member [of "CHR '',''" k v "encodeMembers (kv # kvs) @ CHR ''}'' # rest" acc]
    by (simp add: not_isSpace sk)
  also have "\<dots> = Some (rev (map (\<lambda>(k, v). (coerceUTF8 k, coerceUTF8 v)) (kv # kvs))
                        @ (coerceUTF8 k, coerceUTF8 v) # acc, rest)"
    by (rule "3.IH") simp
  finally show ?case
    by simp
qed

lemma jsonUnmarshal_encode:
  "jsonUnmarshal (''{'' @ encodeMembers kvs @ ''}'')
     = Inr (rev (map (\<lambda>(k, v). (coerceUTF8 k, coerceUTF8 v)) kvs))"
proof (cases "kvs = []")
  case True
  then show ?thesis
    by (simp add: jsonUnmarshal_def skipSpace_Cons not_isSpace skipSpace_Nil)
next
  case False
  then obtain t where t: "encodeMembers kvs = CHR 0x22 # t"
    using encodeMembers_hd by blast
  have o: "objectMembers (CHR 0x22 # t @ ''}'') []
      = Some (rev (map (\<lambda>(k, v). (coerceUTF8 k, coerceUTF8 v)) kvs), [])"
    using objectMembers_encode [OF False, of "[]" "[]"] unfolding t by simp
  show ?thesis
    unfolding t by (simp add: jsonUnmarshal_def skipSpace_Cons not_isSpace skipSpace_Nil o)
qed

lemma encodeMembers_no_newline: "CHR 0x0A \<notin> set (encodeMembers kvs)"
  by (induction kvs rule: encodeMembers.induct)
     (simp_all add: quoteString_def appendString_no_newline)

lemma map_of_unique:
  assumes "x \<in> fst ` set L" "\<forall>(k, v)\<in>set L. k = x \<longrightarrow> v = y"
  shows "map_of L x = Some y"
proof (cases "map_of L x")
  case None
  with assms(1) show ?thesis
    by (simp add: map_of_eq_None_iff)
next
  case (Some z)
  then have "(x, z) \<in> set L"
    by (rule map_of_SomeD)
  with assms(2) Some show ?thesis
    by auto
qed

lemma coerceUTF8_ascii_Cons:
  assumes "(of_char c :: nat) < 128"
  shows "coerceUTF8 (c # cs) = c # coerceUTF8 cs"
proof -
  have d: "DecodeRune (c # take 3 cs) = (of_char c, 1)"
    using assms by (rule DecodeRune_ascii)
  have ne: "(of_char c :: nat) \<noteq> RuneError"
    using assms by (simp add: RuneError_def)
  show ?thesis
    by (subst coerceUTF8.simps) (simp add: d ne)
qed

lemma coerceUTF8_dst_id: "coerceUTF8 ''dst'' = ''dst''"
  by (simp add: coerceUTF8_ascii_Cons coerceUTF8_Nil)

lemma jsonMarshal_Unmarshal_dst:
  assumes "map_of M ''dst'' = Some d"
  shows "\<exists>body M'. jsonMarshal M = Inr (CHR ''{'' # body @ [CHR ''}''])
           \<and> CHR 0x0A \<notin> set body
           \<and> jsonUnmarshal (CHR ''{'' # body @ [CHR ''}'']) = Inr M'
           \<and> map_of M' ''dst'' = Some (coerceUTF8 d)"
proof -
  define kvs where "kvs = map (\<lambda>k. (k, index M k)) (sortedKeys M)"
  define M' where "M' = rev (map (\<lambda>(k, v). (coerceUTF8 k, coerceUTF8 v)) kvs)"
  have m: "jsonMarshal M = Inr (CHR ''{'' # encodeMembers kvs @ [CHR ''}''])"
    by (simp add: jsonMarshal_def kvs_def)
  have u: "jsonUnmarshal (CHR ''{'' # encodeMembers kvs @ [CHR ''}'']) = Inr M'"
    using jsonUnmarshal_encode [of kvs] by (simp add: M'_def)
  have "(''dst'', d) \<in> set M"
    using assms by (rule map_of_SomeD)
  then have "''dst'' \<in> fst ` set M"
    by (metis fst_conv image_eqI)
  then have key: "''dst'' \<in> set (sortedKeys M)"
    by (simp add: sortedKeys_def)
  have i: "index M ''dst'' = d"
    using assms by (simp add: index_def)
  have vals: "v = index M k" if "(k, v) \<in> set kvs" for k v
    using that by (auto simp: kvs_def)
  have "(''dst'', d) \<in> set kvs"
    using key i by (auto simp: kvs_def)
  then have "(\<lambda>(k, v). (coerceUTF8 k, coerceUTF8 v)) (''dst'', d) \<in> set M'"
    unfolding M'_def set_rev set_map by (rule imageI)
  then have "(''dst'', coerceUTF8 d) \<in> set M'"
    by (simp add: coerceUTF8_dst_id)
  then have 1: "''dst'' \<in> fst ` set M'"
    by (metis fst_conv image_eqI)
  have 2: "\<forall>(k, v)\<in>set M'. k = ''dst'' \<longrightarrow> v = coerceUTF8 d"
  proof (clarify)
    fix v
    assume "(''dst'', v) \<in> set M'"
    then obtain k0 v0 where kv: "(k0, v0) \<in> set kvs" "coerceUTF8 k0 = ''dst''" "v = coerceUTF8 v0"
      unfolding M'_def by auto
    from kv(2) have "k0 = ''dst''"
      by (rule coerceUTF8_dst)
    with vals [OF kv(1)] i kv(3) show "v = coerceUTF8 d"
      by simp
  qed
  have "map_of M' ''dst'' = Some (coerceUTF8 d)"
    using 1 2 by (rule map_of_unique)
  with m u encodeMembers_no_newline [of kvs] show ?thesis
    by blast
qed

lemma ValidString_ascii: "\<forall>c\<in>set s. (of_char c :: nat) < 128 \<Longrightarrow> ValidString s"
proof (induction s)
  case Nil
  show ?case
    by (subst ValidString.simps) simp
next
  case (Cons c cs)
  then have a: "(of_char c :: nat) < 128" and v: "ValidString cs"
    by simp_all
  have d: "DecodeRune (c # cs) = (of_char c, 1)"
    using a by (rule DecodeRune_ascii)
  have ne: "(of_char c :: nat) \<noteq> RuneError"
    using a by (simp add: RuneError_def)
  show ?case
    by (subst ValidString.simps) (simp add: d ne v)
qed

lemma appendString_safe:
  "htmlSafeSet (of_char c) \<Longrightarrow> appendString (c # cs) = c # appendString cs"
  by (subst appendString.simps) (simp add: htmlSafeSet_def)

lemma DecodeRune_FF: "DecodeRune (CHR 0xFF # p) = (RuneError, 1)"
  by (rule DecodeRune_none) (simp_all add: first_def)

lemma appendString_FF:
  "appendString [CHR 0xFF] = [CHR 0x5C, CHR ''u'', CHR ''f'', CHR ''f'', CHR ''f'', CHR ''d'']"
  by (subst appendString.simps) (simp add: DecodeRune_FF appendString_Nil)

lemma coerceUTF8_FF: "coerceUTF8 [CHR 0xFF] = [CHR 0xEF, CHR 0xBF, CHR 0xBD]"
  by (subst coerceUTF8.simps) (simp add: DecodeRune_FF coerceUTF8_Nil)

lemma preface_json_dst:
  assumes "map_of M ''dst'' = Some d"
  shows "\<exists>p. encodePreface jsonMarshal M = Inr p
           \<and> fst (readStreamDestination jsonUnmarshal (strings_Reader p)) = (coerceUTF8 d, None)"
proof -
  from jsonMarshal_Unmarshal_dst [OF assms] obtain body M' where
    m: "jsonMarshal M = Inr (CHR ''{'' # body @ [CHR ''}''])" and nl: "CHR 0x0A \<notin> set body"
    and u: "jsonUnmarshal (CHR ''{'' # body @ [CHR ''}'']) = Inr M'"
    and d: "map_of M' ''dst'' = Some (coerceUTF8 d)"
    by blast
  have e: "encodePreface jsonMarshal M = Inr ([] @ CHR ''{'' # body @ CHR ''}'' # [] @ CHR 0x0A # [])"
    using m by (simp add: encodePreface_def)
  have "readStreamDestination jsonUnmarshal
          \<lparr>pending = [] @ CHR ''{'' # body @ CHR ''}'' # [] @ CHR 0x0A # [], final = EOF\<rparr>
        = ((coerceUTF8 d, None), \<lparr>pending = [], final = EOF\<rparr>)"
    using nl u d by (subst preface_object_line) (simp_all add: index_def)
  then have "fst (readStreamDestination jsonUnmarshal
      (strings_Reader ([] @ CHR ''{'' # body @ CHR ''}'' # [] @ CHR 0x0A # []))) = (coerceUTF8 d, None)"
    by (simp add: strings_Reader_def)
  with e show ?thesis
    by blast
qed

text \<open>
  Claim C3, as amended. \<open>json.Marshal\<close> and \<open>json.Unmarshal\<close> are the two functions
  modelled after \<open>encoding/json\<close>. For every map \<open>M\<close> with the key \<open>dst\<close> whose value is
  valid UTF-8, \<open>readStreamDestination\<close> on the bytes of \<open>encodePreface M\<close> returns
  \<open>M["dst"]\<close>; for any value it returns \<open>M["dst"]\<close> with every byte that is not part of a
  valid UTF-8 encoding replaced by U+FFFD. The other keys and values of the map,
  valid or not, make no difference. Whatever the decoder given to
  \<open>readStreamDestination\<close>: a line of blanks before the preface is skipped, blanks around
  the object on its line are trimmed off before it is decoded, and an input that ends
  before any line feed gives the error the input ended with (\<open>io.EOF\<close> for the end of
  the input).
\<close>

theorem preface_roundtrip:
  "(map_of M ''dst'' = Some d \<and> ValidString d
     \<longrightarrow> (\<exists>p. encodePreface jsonMarshal M = Inr p
              \<and> fst (readStreamDestination jsonUnmarshal (strings_Reader p)) = (d, None)))
   \<and> (map_of N ''dst'' = Some e
     \<longrightarrow> (\<exists>p. encodePreface jsonMarshal N = Inr p
              \<and> fst (readStreamDestination jsonUnmarshal (strings_Reader p))
                  = (coerceUTF8 e, None)))
   \<and> (list_all blank line
     \<longrightarrow> readStreamDestination Unmarshal \<lparr>pending = line @ CHR 0x0A # rest, final = f\<rparr>
           = readStreamDestination Unmarshal \<lparr>pending = rest, final = f\<rparr>)
   \<and> (list_all blank lead \<and> list_all blank trail \<and> CHR 0x0A \<notin> set obj
     \<longrightarrow> fst (readStreamDestination Unmarshal
                \<lparr>pending = lead @ CHR ''{'' # obj @ CHR ''}'' # trail @ CHR 0x0A # rest, final = f\<rparr>)
           = (case Unmarshal (CHR ''{'' # obj @ [CHR ''}'']) of
                Inl err \<Rightarrow> ([], Some err)
              | Inr pre \<Rightarrow> (index pre ''dst'', None)))
   \<and> (CHR 0x0A \<notin> set s
     \<longrightarrow> fst (readStreamDestination Unmarshal \<lparr>pending = s, final = f\<rparr>) = ([], Some f))"
proof (intro conjI impI)
  assume a: "map_of M ''dst'' = Some d \<and> ValidString d"
  then have "coerceUTF8 d = d"
    by (simp add: ValidString_coerceUTF8)
  with a preface_json_dst [of M d]
  show "\<exists>p. encodePreface jsonMarshal M = Inr p
              \<and> fst (readStreamDestination jsonUnmarshal (strings_Reader p)) = (d, None)"
    by simp
next
  assume "map_of N ''dst'' = Some e"
  then show "\<exists>p. encodePreface jsonMarshal N = Inr p
              \<and> fst (readStreamDestination jsonUnmarshal (strings_Reader p))
                  = (coerceUTF8 e, None)"
    by (rule preface_json_dst)
next
  assume "list_all blank line"
  then show "readStreamDestination Unmarshal \<lparr>pending = line @ CHR 0x0A # rest, final = f\<rparr>
           = readStreamDestination Unmarshal \<lparr>pending = rest, final = f\<rparr>"
    by (rule preface_blank_line)
next
  assume "list_all blank lead \<and> list_all blank trail \<and> CHR 0x0A \<notin> set obj"
  then show "fst (readStreamDestination Unmarshal
                \<lparr>pending = lead @ CHR ''{'' # obj @ CHR ''}'' # trail @ CHR 0x0A # rest, final = f\<rparr>)
           = (case Unmarshal (CHR ''{'' # obj @ [CHR ''}'']) of
                Inl err \<Rightarrow> ([], Some err)
              | Inr pre \<Rightarrow> (index pre ''dst'', None))"
    by (subst preface_object_line) simp_all
next
  assume "CHR 0x0A \<notin> set s"
  then show "fst (readStreamDestination Unmarshal \<lparr>pending = s, final = f\<rparr>) = ([], Some f)"
    by (subst readStreamDestination_eof) simp_all
qed

theorem preface_roundtrip_witness:
  "(\<exists>p. encodePreface jsonMarshal [(''dst'', ''127.0.0.1:8080''), (''proto'', ''tcp'')] = Inr p
        \<and> fst (readStreamDestination jsonUnmarshal (strings_Reader p)) = (''127.0.0.1:8080'', None))
   \<and> (\<exists>p. encodePreface jsonMarshal [(''proto'', ''tcp''), (''dst'', [CHR 0xC3, CHR 0xA9, CHR 0xFF])] = Inr p
        \<and> fst (readStreamDestination jsonUnmarshal (strings_Reader p))
            = (coerceUTF8 [CHR 0xC3, CHR 0xA9, CHR 0xFF], None))
   \<and> readStreamDestination jsonUnmarshal
         \<lparr>pending = [CHR 0x20, CHR 0x09] @ CHR 0x0A # ''{}'' @ [CHR 0x0A], final = EOF\<rparr>
       = readStreamDestination jsonUnmarshal \<lparr>pending = ''{}'' @ [CHR 0x0A], final = EOF\<rparr>
   \<and> fst (readStreamDestination jsonUnmarshal
         \<lparr>pending = [CHR 0x20] @ CHR ''{'' # encodeMembers [(''dst'', ''h:1'')] @ CHR ''}'' # [CHR 0x09]
            @ CHR 0x0A # ''{}'' @ [CHR 0x0A], final = EOF\<rparr>)
       = (''h:1'', None)
   \<and> fst (readStreamDestination jsonUnmarshal \<lparr>pending = ''{}'', final = EOF\<rparr>) = ([], Some EOF)"
proof -
  let ?M = "[(''dst'', ''127.0.0.1:8080''), (''proto'', ''tcp'')]"
  let ?N = "[(''proto'', ''tcp''), (''dst'', [CHR 0xC3, CHR 0xA9, CHR 0xFF])]"
  have v: "ValidString ''127.0.0.1:8080''"
    by (rule ValidString_ascii) simp
  have h1: "map_of ?M ''dst'' = Some ''127.0.0.1:8080'' \<and> ValidString ''127.0.0.1:8080''"
    using v by simp
  have h5: "map_of ?N ''dst'' = Some [CHR 0xC3, CHR 0xA9, CHR 0xFF]"
    by simp
  have h2: "list_all blank [CHR 0x20, CHR 0x09]"
    by (simp add: blank_def)
  have h3: "list_all blank [CHR 0x20] \<and> list_all blank [CHR 0x09]
      \<and> CHR 0x0A \<notin> set (encodeMembers [(''dst'', ''h:1'')])"
    using encodeMembers_no_newline [of "[(''dst'', ''h:1'')]"]
    by (simp add: blank_def del: encodeMembers.simps)
  have h4: "CHR 0x0A \<notin> set ''{}''"
    by simp
  have u: "jsonUnmarshal (CHR ''{'' # encodeMembers [(''dst'', ''h:1'')] @ [CHR ''}''])
      = Inr [(''dst'', ''h:1'')]"
    using jsonUnmarshal_encode [of "[(''dst'', ''h:1'')]"]
    by (simp add: coerceUTF8_ascii_Cons coerceUTF8_Nil)
  note t = preface_roundtrip [where M = ?M and d = "''127.0.0.1:8080''" and N = ?N
      and e = "[CHR 0xC3, CHR 0xA9, CHR 0xFF]" and Unmarshal = jsonUnmarshal
      and line = "[CHR 0x20, CHR 0x09]" and rest = "''{}'' @ [CHR 0x0A]" and f = EOF
      and lead = "[CHR 0x20]" and trail = "[CHR 0x09]"
      and obj = "encodeMembers [(''dst'', ''h:1'')]" and s = "''{}''"]
  from t h1 have 1: "\<exists>p. encodePreface jsonMarshal ?M = Inr p
        \<and> fst (readStreamDestination jsonUnmarshal (strings_Reader p)) = (''127.0.0.1:8080'', None)"
    by blast
  from t h5 have 5: "\<exists>p. encodePreface jsonMarshal ?N = Inr p
        \<and> fst (readStreamDestination jsonUnmarshal (strings_Reader p))
            = (coerceUTF8 [CHR 0xC3, CHR 0xA9, CHR 0xFF], None)"
    by blast
  from t h2 have 2: "readStreamDestination jsonUnmarshal
         \<lparr>pending = [CHR 0x20, CHR 0x09] @ CHR 0x0A # ''{}'' @ [CHR 0x0A], final = EOF\<rparr>
       = readStreamDestination jsonUnmarshal \<lparr>pending = ''{}'' @ [CHR 0x0A], final = EOF\<rparr>"
    by blast
  from t h3 have "fst (readStreamDestination jsonUnmarshal
         \<lparr>pending = [CHR 0x20] @ CHR ''{'' # encodeMembers [(''dst'', ''h:1'')] @ CHR ''}'' # [CHR 0x09]
            @ CHR 0x0A # ''{}'' @ [CHR 0x0A], final = EOF\<rparr>)
       = (case jsonUnmarshal (CHR ''{'' # encodeMembers [(''dst'', ''h:1'')] @ [CHR ''}'']) of
                Inl err \<Rightarrow> ([], Some err)
              | Inr pre \<Rightarrow> (index pre ''dst'', None))"
    by blast
  then have 3: "fst (readStreamDestination jsonUnmarshal
         \<lparr>pending = [CHR 0x20] @ CHR ''{'' # encodeMembers [(''dst'', ''h:1'')] @ CHR ''}'' # [CHR 0x09]
            @ CHR 0x0A # ''{}'' @ [CHR 0x0A], final = EOF\<rparr>)
       = (''h:1'', None)"
    unfolding u by (simp add: index_def)
  from t h4 have 4: "fst (readStreamDestination jsonUnmarshal \<lparr>pending = ''{}'', final = EOF\<rparr>)
       = ([], Some EOF)"
    by blast
  from 1 5 2 3 4 show ?thesis
    by blast
qed

text \<open>
  The claim as stated fails for a destination that is not valid UTF-8. For the map with
  the one byte \<open>0xFF\<close> under \<open>dst\<close>, \<open>encodePreface\<close> writes the escape of U+FFFD, and
  \<open>readStreamDestination\<close> returns the three bytes \<open>0xEF 0xBF 0xBD\<close>, not the byte
  \<open>0xFF\<close>.
\<close>

theorem preface_roundtrip_counterexample:
  "index [(''dst'', [CHR 0xFF])] ''dst'' = [CHR 0xFF]
   \<and> encodePreface jsonMarshal [(''dst'', [CHR 0xFF])]
       = Inr (CHR ''{'' # CHR 0x22 # ''dst'' @ [CHR 0x22, CHR '':'', CHR 0x22, CHR 0x5C] @ ''ufffd''
              @ [CHR 0x22, CHR ''}'', CHR 0x0A])
   \<and> fst (readStreamDestination jsonUnmarshal
         (strings_Reader (CHR ''{'' # CHR 0x22 # ''dst'' @ [CHR 0x22, CHR '':'', CHR 0x22, CHR 0x5C]
            @ ''ufffd'' @ [CHR 0x22, CHR ''}'', CHR 0x0A])))
       = ([CHR 0xEF, CHR 0xBF, CHR 0xBD], None)"
proof -
  let ?M = "[(''dst'', [CHR 0xFF])]"
  have k: "appendString ''dst'' = ''dst''"
    by (simp add: appendString_safe htmlSafeSet_def appendString_Nil)
  have en: "encodeMembers ?M = CHR 0x22 # ''dst'' @ [CHR 0x22, CHR '':'', CHR 0x22, CHR 0x5C] @ ''ufffd''
      @ [CHR 0x22]"
    by (simp add: quoteString_def k appendString_FF)
  have m: "jsonMarshal ?M = Inr (CHR ''{'' # encodeMembers ?M @ [CHR ''}''])"
    by (simp add: jsonMarshal_def sortedKeys_def index_def)
  have e: "encodePreface jsonMarshal ?M = Inr (CHR ''{'' # encodeMembers ?M @ [CHR ''}'', CHR 0x0A])"
    by (simp add: encodePreface_def m)
  have u: "jsonUnmarshal (CHR ''{'' # encodeMembers ?M @ [CHR ''}''])
      = Inr [(''dst'', [CHR 0xEF, CHR 0xBF, CHR 0xBD])]"
    using jsonUnmarshal_encode [of ?M]
    by (simp add: coerceUTF8_ascii_Cons coerceUTF8_Nil coerceUTF8_FF)
  have "readStreamDestination jsonUnmarshal
          \<lparr>pending = [] @ CHR ''{'' # encodeMembers ?M @ CHR ''}'' # [] @ CHR 0x0A # [], final = EOF\<rparr>
        = (([CHR 0xEF, CHR 0xBF, CHR 0xBD], None), \<lparr>pending = [], final = EOF\<rparr>)"
    using encodeMembers_no_newline [of ?M] u
    by (subst preface_object_line) (simp_all add: index_def)
  then have r: "fst (readStreamDestination jsonUnmarshal
      (strings_Reader (CHR ''{'' # encodeMembers ?M @ [CHR ''}'', CHR 0x0A])))
      = ([CHR 0xEF, CHR 0xBF, CHR 0xBD], None)"
    by (simp add: strings_Reader_def)
  have i: "index ?M ''dst'' = [CHR 0xFF]"
    by (simp add: index_def)
  from i e r show ?thesis
    unfolding en by simp
qed





end
